theory Spec2Isabelle
  imports Main "HOL-Library.AList"
begin

section \<open>The change classifier (class FileWatcher)\<close>

text \<open>
  The host hands a \<open>TAbstractFile\<close> to every vault handler. Only a \<open>TFile\<close> has an
  extension; \<open>file instanceof TFile\<close> is the constructor test.
\<close>

datatype TAbstractFile =
    TFile (path: string) (extension: string)
  | TFolder (path: string)

fun isTFile :: "TAbstractFile \<Rightarrow> bool" where
  "isTFile (TFile p e) = True"
| "isTFile (TFolder p) = False"

record ExternalDiffSettings =
  enabled :: bool
  debounceMs :: nat

text \<open>
  A leaf of \<open>getLeavesOfType("markdown")\<close>, as far as \<open>editorHasContent\<close> reads it:
  whether its view is a \<open>MarkdownView\<close>, the path of the view's file (\<open>view.file?.path\<close>,
  absent when the view has no file) and the editor's text.
\<close>

record MarkdownLeaf =
  isMarkdownView :: bool
  viewFilePath :: "string option"
  editorValue :: string

text \<open>
  The fields of the class, followed by the part of the host the class acts on:
  \<open>scheduled\<close> holds the timeouts that were set and neither cleared nor fired, each
  with the path its callback closes over; \<open>lastTimer\<close> is the last handle that
  \<open>setTimeout\<close> returned (handles are positive and fresh); \<open>reported\<close> lists the calls
  of \<open>onExternalChange\<close> in order, as (path, oldContent, newContent).
  \<open>debounceTimers\<close> is a JavaScript Map that \<open>destroy\<close> iterates, kept as an
  association list in insertion order.
\<close>

record FileWatcher =
  settings :: ExternalDiffSettings
  snapshots :: "string \<rightharpoonup> string"
  recentlyEditedInternally :: "string set"
  pendingExternalPaths :: "string set"
  debounceTimers :: "(string \<times> nat) list"
  scheduled :: "(nat \<times> string) list"
  lastTimer :: nat
  reported :: "(string \<times> string \<times> string) list"

definition newWatcher :: "ExternalDiffSettings \<Rightarrow> FileWatcher" where
  "newWatcher st =
     \<lparr>settings = st, snapshots = Map.empty, recentlyEditedInternally = {},
      pendingExternalPaths = {}, debounceTimers = [], scheduled = [], lastTimer = 0,
      reported = []\<rparr>"

definition onExternalChange ::
    "string \<Rightarrow> string \<Rightarrow> string \<Rightarrow> FileWatcher \<Rightarrow> FileWatcher" where
  "onExternalChange p oldContent newContent s =
     s\<lparr>reported := reported s @ [(p, oldContent, newContent)]\<rparr>"

text \<open>\<open>start\<close>: one snapshot per markdown file, each with the content read for it.\<close>

definition start :: "(string \<times> string) list \<Rightarrow> FileWatcher \<Rightarrow> FileWatcher" where
  "start files s =
     s\<lparr>snapshots := fold (\<lambda>(p, content) m. m(p \<mapsto> content)) files (snapshots s)\<rparr>"

text \<open>The loop over the leaves returns at the first view of the path that shows the content.\<close>

fun editorHasContent :: "MarkdownLeaf list \<Rightarrow> string \<Rightarrow> string \<Rightarrow> bool" where
  "editorHasContent [] p content = False"
| "editorHasContent (leaf # leaves) p content =
     (if isMarkdownView leaf \<and> viewFilePath leaf = Some p
      then (if editorValue leaf = content then True else editorHasContent leaves p content)
      else editorHasContent leaves p content)"

text \<open>
  \<open>handleModify\<close>. The content that \<open>cachedRead\<close> delivers and the leaves of the
  workspace are parameters; the body after the read runs without interruption.
\<close>

definition handleModify ::
    "FileWatcher \<Rightarrow> TAbstractFile \<Rightarrow> string \<Rightarrow> MarkdownLeaf list \<Rightarrow> FileWatcher" where
  "handleModify s file newContent leaves =
     (if \<not> isTFile file \<or> extension file \<noteq> ''md'' then s
      else if \<not> enabled (settings s) then s
      else
        (case snapshots s (path file) of
           None \<Rightarrow> s\<lparr>snapshots := (snapshots s)(path file \<mapsto> newContent)\<rparr>
         | Some oldContent \<Rightarrow>
             if oldContent = newContent
             then s\<lparr>snapshots := (snapshots s)(path file \<mapsto> newContent)\<rparr>
             else if path file \<in> pendingExternalPaths s
             then onExternalChange (path file) oldContent newContent s
             else if path file \<in> recentlyEditedInternally s
             then s\<lparr>snapshots := (snapshots s)(path file \<mapsto> newContent)\<rparr>
             else if editorHasContent leaves (path file) newContent
             then s\<lparr>snapshots := (snapshots s)(path file \<mapsto> newContent)\<rparr>
             else onExternalChange (path file) oldContent newContent
                    (s\<lparr>pendingExternalPaths := insert (path file) (pendingExternalPaths s)\<rparr>)))"

definition handleCreate :: "FileWatcher \<Rightarrow> TAbstractFile \<Rightarrow> string \<Rightarrow> FileWatcher" where
  "handleCreate s file content =
     (if \<not> isTFile file \<or> extension file \<noteq> ''md'' then s
      else s\<lparr>snapshots := (snapshots s)(path file \<mapsto> content)\<rparr>)"

definition handleDelete :: "FileWatcher \<Rightarrow> TAbstractFile \<Rightarrow> FileWatcher" where
  "handleDelete s file =
     (if \<not> isTFile file then s
      else s\<lparr>snapshots := (snapshots s)(path file := None),
             recentlyEditedInternally := recentlyEditedInternally s - {path file}\<rparr>)"

definition handleRename :: "FileWatcher \<Rightarrow> TAbstractFile \<Rightarrow> string \<Rightarrow> FileWatcher" where
  "handleRename s file oldPath =
     (if \<not> isTFile file then s
      else
        (let s1 = (case snapshots s oldPath of
                     None \<Rightarrow> s
                   | Some content \<Rightarrow>
                       s\<lparr>snapshots := ((snapshots s)(oldPath := None))(path file \<mapsto> content)\<rparr>)
         in if oldPath \<in> recentlyEditedInternally s1
            then s1\<lparr>recentlyEditedInternally :=
                      insert (path file) (recentlyEditedInternally s1 - {oldPath})\<rparr>
            else s1))"

definition updateSnapshot :: "string \<Rightarrow> string \<Rightarrow> FileWatcher \<Rightarrow> FileWatcher" where
  "updateSnapshot p content s =
     s\<lparr>snapshots := (snapshots s)(p \<mapsto> content),
       pendingExternalPaths := pendingExternalPaths s - {p}\<rparr>"

text \<open>
  The host's timers. \<open>clearTimeout\<close> drops the handle from the scheduled timeouts;
  \<open>setTimeout\<close> returns a fresh positive handle. The callback that
  \<open>markAsInternalEdit\<close> installs is \<open>expire\<close>: it runs when its timeout fires, which
  takes the timeout off the schedule.
\<close>

definition clearTimeout :: "nat \<Rightarrow> FileWatcher \<Rightarrow> FileWatcher" where
  "clearTimeout t s = s\<lparr>scheduled := filter (\<lambda>e. fst e \<noteq> t) (scheduled s)\<rparr>"

definition markAsInternalEdit :: "string \<Rightarrow> FileWatcher \<Rightarrow> FileWatcher" where
  "markAsInternalEdit p s =
     (let s1 = s\<lparr>recentlyEditedInternally := insert p (recentlyEditedInternally s)\<rparr>;
          s2 = (case map_of (debounceTimers s1) p of
                  None \<Rightarrow> s1
                | Some existing \<Rightarrow> if existing \<noteq> 0 then clearTimeout existing s1 else s1);
          t = Suc (lastTimer s2)
      in s2\<lparr>scheduled := scheduled s2 @ [(t, p)], lastTimer := t,
             debounceTimers := AList.update p t (debounceTimers s2)\<rparr>)"

definition expire :: "nat \<Rightarrow> FileWatcher \<Rightarrow> FileWatcher" where
  "expire t s =
     (case map_of (scheduled s) t of
        None \<Rightarrow> s
      | Some p \<Rightarrow>
          s\<lparr>scheduled := filter (\<lambda>e. fst e \<noteq> t) (scheduled s),
            recentlyEditedInternally := recentlyEditedInternally s - {p},
            debounceTimers := AList.delete p (debounceTimers s)\<rparr>)"

definition destroy :: "FileWatcher \<Rightarrow> FileWatcher" where
  "destroy s =
     (fold clearTimeout (map snd (debounceTimers s)) s)
       \<lparr>debounceTimers := [], recentlyEditedInternally := {},
        pendingExternalPaths := {}, snapshots := Map.empty\<rparr>"

text \<open>
  Everything that can happen to a watcher: the vault's events, the calls of the plugin,
  a timeout firing, and the plugin changing the shared settings object.
\<close>

datatype event =
    Start "(string \<times> string) list"
  | Modify TAbstractFile string "MarkdownLeaf list"
  | Create TAbstractFile string
  | Delete TAbstractFile
  | Rename TAbstractFile string
  | UpdateSnapshot string string
  | MarkAsInternalEdit string
  | TimerFires nat
  | Destroy
  | SetEnabled bool
  | SetDebounceMs nat

fun step :: "FileWatcher \<Rightarrow> event \<Rightarrow> FileWatcher" where
  "step s (Start files) = start files s"
| "step s (Modify file content leaves) = handleModify s file content leaves"
| "step s (Create file content) = handleCreate s file content"
| "step s (Delete file) = handleDelete s file"
| "step s (Rename file oldPath) = handleRename s file oldPath"
| "step s (UpdateSnapshot p content) = updateSnapshot p content s"
| "step s (MarkAsInternalEdit p) = markAsInternalEdit p s"
| "step s (TimerFires t) = expire t s"
| "step s Destroy = destroy s"
| "step s (SetEnabled b) = s\<lparr>settings := (settings s)\<lparr>enabled := b\<rparr>\<rparr>"
| "step s (SetDebounceMs n) = s\<lparr>settings := (settings s)\<lparr>debounceMs := n\<rparr>\<rparr>"

definition run :: "FileWatcher \<Rightarrow> event list \<Rightarrow> FileWatcher" where
  "run s es = foldl step s es"

definition DEFAULT_SETTINGS :: ExternalDiffSettings where
  "DEFAULT_SETTINGS = \<lparr>enabled = True, debounceMs = 1000\<rparr>"

subsection \<open>Runs of events\<close>

lemma run_Nil: "run s [] = s"
  by (simp add: run_def)

lemma run_Cons: "run s (e # es) = run (step s e) es"
  by (simp add: run_def)

lemma run_append: "run s (es @ fs) = run (run s es) fs"
  by (simp add: run_def)

subsection \<open>The disabled setting\<close>

lemma run_disabled_modifications:
  "\<not> enabled (settings s) \<Longrightarrow> run s (map (\<lambda>(f, c, ls). Modify f c ls) mods) = s"
  by (induction mods) (auto simp: run_Nil run_Cons handleModify_def)

text \<open>
  Claim C10. With the \<open>enabled\<close> setting false, \<open>handleModify\<close> returns the watcher as
  it was, for every file (markdown or not), every content and every set of open views:
  snapshots, pending set, markers and reports are untouched. Any number of modifications
  while disabled leave the state as it was, so once detection is enabled again an
  external edit of a path is reported against the snapshot from before the disabling.
\<close>

theorem disabled_handleModify_noop:
  "\<not> enabled (settings s) \<Longrightarrow>
     handleModify s file newContent leaves = s \<and>
     run s (map (\<lambda>(f, c, ls). Modify f c ls) mods) = s \<and>
     (snapshots s p = Some baseline \<and> baseline \<noteq> c' \<and>
      p \<notin> pendingExternalPaths s \<and> p \<notin> recentlyEditedInternally s \<and>
      \<not> editorHasContent ls' p c' \<longrightarrow>
      reported (run s (map (\<lambda>(f, c, ls). Modify f c ls) mods @
                       [SetEnabled True, Modify (TFile p ''md'') c' ls']))
        = reported s @ [(p, baseline, c')])"
  by (simp add: run_append run_disabled_modifications run_Cons run_Nil handleModify_def
      onExternalChange_def)

text \<open>
  The theorem at a disabled watcher that holds the snapshot \<open>old\<close> for \<open>a.md\<close>: the
  modification to \<open>new\<close> changes nothing, and the edit to \<open>newer\<close> after enabling is
  reported against \<open>old\<close>.
\<close>

theorem disabled_handleModify_noop_witness:
  "(let s = (newWatcher \<lparr>enabled = False, debounceMs = 1000\<rparr>)\<lparr>snapshots := [''a.md'' \<mapsto> ''old'']\<rparr>
    in \<not> enabled (settings s) \<and>
       handleModify s (TFile ''a.md'' ''md'') ''new'' [] = s \<and>
       snapshots (handleModify s (TFile ''a.md'' ''md'') ''new'' []) ''a.md'' = Some ''old'' \<and>
       reported (run s (map (\<lambda>(f, c, ls). Modify f c ls) [(TFile ''a.md'' ''md'', ''new'', [])] @
                       [SetEnabled True, Modify (TFile ''a.md'' ''md'') ''newer'' []]))
        = [(''a.md'', ''old'', ''newer'')])"
  using disabled_handleModify_noop
    [of "(newWatcher \<lparr>enabled = False, debounceMs = 1000\<rparr>)\<lparr>snapshots := [''a.md'' \<mapsto> ''old'']\<rparr>"
        "TFile ''a.md'' ''md''" "''new''" "[]" "[(TFile ''a.md'' ''md'', ''new'', [])]"
        "''a.md''" "''old''" "''newer''" "[]"]
  by (simp add: newWatcher_def Let_def)

subsection \<open>First observation\<close>

text \<open>
  Claim C9 as stated fails while detection is disabled: the guard on the \<open>enabled\<close>
  setting returns before the snapshot is stored, so a path without a snapshot still has
  none after \<open>handleModify\<close>.
\<close>

theorem first_observation_disabled_counterexample:
  "snapshots (newWatcher \<lparr>enabled = False, debounceMs = 1000\<rparr>) ''a.md'' = None \<and>
   snapshots (handleModify (newWatcher \<lparr>enabled = False, debounceMs = 1000\<rparr>)
                (TFile ''a.md'' ''md'') ''text'' []) ''a.md'' \<noteq> Some ''text''"
  by (simp add: newWatcher_def handleModify_def)

text \<open>
  Claim C9, amended. With detection enabled, if a markdown file's path has no snapshot
  (or its snapshot equals the new content), \<open>handleModify\<close> stores the new content as
  the snapshot and changes nothing else: no report is emitted and the pending set is as
  before.
\<close>

theorem first_observation_stores_snapshot:
  "enabled (settings s) \<and> (snapshots s p = None \<or> snapshots s p = Some c) \<Longrightarrow>
     handleModify s (TFile p ''md'') c leaves = s\<lparr>snapshots := (snapshots s)(p \<mapsto> c)\<rparr> \<and>
     snapshots (handleModify s (TFile p ''md'') c leaves) p = Some c \<and>
     reported (handleModify s (TFile p ''md'') c leaves) = reported s \<and>
     pendingExternalPaths (handleModify s (TFile p ''md'') c leaves) = pendingExternalPaths s"
  by (auto simp: handleModify_def)

theorem first_observation_stores_snapshot_witness:
  "(let s = newWatcher DEFAULT_SETTINGS
    in enabled (settings s) \<and> snapshots s ''a.md'' = None \<and>
       snapshots (handleModify s (TFile ''a.md'' ''md'') ''text'' []) ''a.md'' = Some ''text'' \<and>
       reported (handleModify s (TFile ''a.md'' ''md'') ''text'' []) = [] \<and>
       pendingExternalPaths (handleModify s (TFile ''a.md'' ''md'') ''text'' []) = {})"
  using first_observation_stores_snapshot
    [of "newWatcher DEFAULT_SETTINGS" "''a.md''" "''text''" "[]"]
  by (simp add: newWatcher_def DEFAULT_SETTINGS_def Let_def)

subsection \<open>Internal-edit markers\<close>

lemma markAsInternalEdit_marks:
  "p \<in> recentlyEditedInternally (markAsInternalEdit p s)"
  by (simp add: markAsInternalEdit_def Let_def clearTimeout_def split: option.splits)

lemma expire_unmarks:
  "map_of (scheduled s) t = Some p \<Longrightarrow> p \<notin> recentlyEditedInternally (expire t s)"
  by (simp add: expire_def)

text \<open>
  Claim C5 as stated fails while detection is disabled: with a live marker, a path that
  is not pending and a content that differs from the snapshot, \<open>handleModify\<close> leaves
  the snapshot at its old value.
\<close>

theorem internal_suppression_disabled_counterexample:
  "(let s = markAsInternalEdit ''a.md''
              ((newWatcher \<lparr>enabled = False, debounceMs = 1000\<rparr>)\<lparr>snapshots := [''a.md'' \<mapsto> ''old'']\<rparr>)
    in ''a.md'' \<in> recentlyEditedInternally s \<and> ''a.md'' \<notin> pendingExternalPaths s \<and>
       snapshots s ''a.md'' = Some ''old'' \<and>
       snapshots (handleModify s (TFile ''a.md'' ''md'') ''new'' []) ''a.md'' = Some ''old'')"
  by (simp add: newWatcher_def handleModify_def markAsInternalEdit_def Let_def)

text \<open>
  Claim C5, amended. \<open>markAsInternalEdit\<close> puts the path into the marker set and the
  timeout it installs takes the path out again when it fires. With detection enabled and
  a markdown file whose path is not pending: while the marker is live, a modification to
  a content that differs from the snapshot stores the content as the snapshot and emits
  no report; once the marker is gone and no open view of the path shows the new content,
  the same modification adds the path to the pending set, emits the report
  (path, snapshot, content) and leaves the snapshot as it was.
\<close>

theorem internal_edit_marker_classification:
  "p \<in> recentlyEditedInternally (markAsInternalEdit p s0) \<and>
   (map_of (scheduled s) t = Some p \<longrightarrow> p \<notin> recentlyEditedInternally (expire t s)) \<and>
   (enabled (settings s) \<and> p \<in> recentlyEditedInternally s \<and> p \<notin> pendingExternalPaths s \<and>
    snapshots s p \<noteq> Some c \<longrightarrow>
      handleModify s (TFile p ''md'') c leaves = s\<lparr>snapshots := (snapshots s)(p \<mapsto> c)\<rparr>) \<and>
   (enabled (settings s) \<and> p \<notin> recentlyEditedInternally s \<and> p \<notin> pendingExternalPaths s \<and>
    snapshots s p = Some old \<and> old \<noteq> c \<and> \<not> editorHasContent leaves p c \<longrightarrow>
      handleModify s (TFile p ''md'') c leaves =
        s\<lparr>pendingExternalPaths := insert p (pendingExternalPaths s),
          reported := reported s @ [(p, old, c)]\<rparr>)"
  by (auto simp: markAsInternalEdit_marks expire_unmarks handleModify_def onExternalChange_def
      split: option.splits)

text \<open>
  The theorem along one run: the marker is armed, the save of \<open>typed\<close> inside the window
  is absorbed, timeout 1 fires, and the later modification to \<open>other\<close> is reported
  against \<open>typed\<close>.
\<close>

theorem internal_edit_marker_classification_witness:
  "(let s0 = (newWatcher DEFAULT_SETTINGS)\<lparr>snapshots := [''a.md'' \<mapsto> ''old'']\<rparr>;
        s1 = markAsInternalEdit ''a.md'' s0;
        s2 = handleModify s1 (TFile ''a.md'' ''md'') ''typed'' [];
        s3 = expire 1 s2;
        s4 = handleModify s3 (TFile ''a.md'' ''md'') ''other'' []
    in ''a.md'' \<in> recentlyEditedInternally s1 \<and>
       snapshots s2 ''a.md'' = Some ''typed'' \<and> reported s2 = [] \<and>
       map_of (scheduled s2) 1 = Some ''a.md'' \<and>
       ''a.md'' \<notin> recentlyEditedInternally s3 \<and>
       snapshots s4 ''a.md'' = Some ''typed'' \<and>
       pendingExternalPaths s4 = {''a.md''} \<and>
       reported s4 = [(''a.md'', ''typed'', ''other'')])"
proof -
  define s0 where "s0 = (newWatcher DEFAULT_SETTINGS)\<lparr>snapshots := [''a.md'' \<mapsto> ''old'']\<rparr>"
  define s1 where "s1 = markAsInternalEdit ''a.md'' s0"
  define s2 where "s2 = s1\<lparr>snapshots := (snapshots s1)(''a.md'' \<mapsto> ''typed'')\<rparr>"
  define s3 where "s3 = expire 1 s2"
  have f1: "enabled (settings s1)" "''a.md'' \<notin> pendingExternalPaths s1"
      "snapshots s1 ''a.md'' \<noteq> Some ''typed''" "map_of (scheduled s2) 1 = Some ''a.md''"
    by (simp_all add: s2_def s1_def s0_def newWatcher_def DEFAULT_SETTINGS_def
        markAsInternalEdit_def Let_def)
  have f3: "enabled (settings s3)" "''a.md'' \<notin> pendingExternalPaths s3"
      "snapshots s3 ''a.md'' = Some ''typed''" "pendingExternalPaths s3 = {}" "reported s3 = []"
      "reported s2 = []"
    by (simp_all add: s3_def s2_def s1_def s0_def newWatcher_def DEFAULT_SETTINGS_def
        markAsInternalEdit_def Let_def expire_def)
  note a = internal_edit_marker_classification [of "''a.md''" s0 s1 1 "''typed''" "[]" "''old''"]
  note b = internal_edit_marker_classification [of "''a.md''" s0 s2 1 "''other''" "[]" "''typed''"]
  note c = internal_edit_marker_classification [of "''a.md''" s0 s3 1 "''other''" "[]" "''typed''"]
  have m1: "''a.md'' \<in> recentlyEditedInternally s1" using a by (simp add: s1_def)
  have h2: "handleModify s1 (TFile ''a.md'' ''md'') ''typed'' [] = s2"
    using a f1 m1 by (simp add: s2_def)
  have m3: "''a.md'' \<notin> recentlyEditedInternally s3" using b f1 by (simp add: s3_def)
  have h4: "handleModify s3 (TFile ''a.md'' ''md'') ''other'' [] =
        s3\<lparr>pendingExternalPaths := insert ''a.md'' (pendingExternalPaths s3),
          reported := reported s3 @ [(''a.md'', ''typed'', ''other'')]\<rparr>"
    using c f3 m3 by simp
  show ?thesis
    unfolding Let_def s0_def [symmetric] s1_def [symmetric] h2 s3_def [symmetric] h4
    using m1 m3 f1 f3 by (simp add: s2_def)
qed

subsection \<open>Timers\<close>

text \<open>
  The invariant of the timers: the scheduled timeouts have distinct positive handles, and
  each is the one stored in \<open>debounceTimers\<close> under the path of its callback.
\<close>

definition timers_wf :: "FileWatcher \<Rightarrow> bool" where
  "timers_wf s \<longleftrightarrow>
     distinct (map fst (scheduled s)) \<and>
     (\<forall>(t, p) \<in> set (scheduled s).
        map_of (debounceTimers s) p = Some t \<and> 0 < t \<and> t \<le> lastTimer s)"

lemma handleModify_timers [simp]:
  "scheduled (handleModify s f c ls) = scheduled s"
  "debounceTimers (handleModify s f c ls) = debounceTimers s"
  "lastTimer (handleModify s f c ls) = lastTimer s"
  by (simp_all add: handleModify_def onExternalChange_def split: option.splits)

lemma handleRename_timers [simp]:
  "scheduled (handleRename s f old) = scheduled s"
  "debounceTimers (handleRename s f old) = debounceTimers s"
  "lastTimer (handleRename s f old) = lastTimer s"
  by (simp_all add: handleRename_def Let_def split: option.splits)

lemma fold_clearTimeout_scheduled:
  "scheduled (fold clearTimeout ts s) = filter (\<lambda>e. fst e \<notin> set ts) (scheduled s)"
  by (induction ts arbitrary: s) (auto simp: clearTimeout_def intro: filter_cong)

lemma timers_wf_markAsInternalEdit:
  assumes "timers_wf s"
  shows "timers_wf (markAsInternalEdit p s)"
proof -
  have old: "t \<le> lastTimer s \<and> 0 < t \<and> map_of (debounceTimers s) q = Some t"
    if "(t, q) \<in> set (scheduled s)" for t q
    using assms that by (auto simp: timers_wf_def)
  show ?thesis
    using assms
    by (auto simp: timers_wf_def markAsInternalEdit_def Let_def clearTimeout_def
        update_conv' distinct_map_filter dest!: old split: option.splits)
qed

lemma timers_wf_expire:
  assumes "timers_wf s"
  shows "timers_wf (expire t s)"
proof (cases "map_of (scheduled s) t")
  case None
  then show ?thesis using assms by (simp add: expire_def)
next
  case (Some p)
  then have tp: "(t, p) \<in> set (scheduled s)" by (rule map_of_SomeD)
  have old: "map_of (debounceTimers s) q = Some t'"
    if "(t', q) \<in> set (scheduled s)" for t' q
    using assms that by (auto simp: timers_wf_def)
  have "q \<noteq> p" if "(t', q) \<in> set (scheduled s)" "t' \<noteq> t" for t' q
    using old [OF that(1)] old [OF tp] that(2) by auto
  then show ?thesis
    using assms Some
    by (auto simp: timers_wf_def expire_def delete_conv' distinct_map_filter)
qed

lemma destroy_scheduled:
  assumes "timers_wf s"
  shows "scheduled (destroy s) = []"
proof -
  have "fst e \<in> set (map snd (debounceTimers s))" if "e \<in> set (scheduled s)" for e
  proof -
    obtain t p where e: "e = (t, p)" by (cases e)
    with assms that have "map_of (debounceTimers s) p = Some t" by (auto simp: timers_wf_def)
    then have "(p, t) \<in> set (debounceTimers s)" by (rule map_of_SomeD)
    then show ?thesis by (force simp: e)
  qed
  then show ?thesis
    by (auto simp: destroy_def fold_clearTimeout_scheduled filter_empty_conv)
qed

lemma timers_wf_step:
  assumes "timers_wf s"
  shows "timers_wf (step s e)"
proof (cases e)
  case (MarkAsInternalEdit p)
  then show ?thesis using assms by (simp add: timers_wf_markAsInternalEdit)
next
  case (TimerFires t)
  then show ?thesis using assms by (simp add: timers_wf_expire)
next
  case Destroy
  then show ?thesis using destroy_scheduled [OF assms] by (simp add: timers_wf_def)
qed (use assms in \<open>simp_all add: timers_wf_def start_def handleCreate_def handleDelete_def
      updateSnapshot_def\<close>)

lemma timers_wf_run: "timers_wf s \<Longrightarrow> timers_wf (run s es)"
  by (induction es arbitrary: s) (simp_all add: run_Nil run_Cons timers_wf_step)

lemma timers_wf_reachable: "timers_wf (run (newWatcher st) es)"
  by (rule timers_wf_run) (simp add: timers_wf_def newWatcher_def)

text \<open>
  Claim C8. In every state a watcher can reach from its construction, after \<open>destroy\<close>
  no timeout is scheduled any more, the timer map, the marker set, the pending set and
  the snapshot map are empty, and no handle \<open>t\<close> has a callback left to run: a firing of
  \<open>t\<close> changes nothing.
\<close>

theorem destroy_cancels_and_clears:
  "scheduled (destroy (run (newWatcher st) es)) = [] \<and>
   debounceTimers (destroy (run (newWatcher st) es)) = [] \<and>
   recentlyEditedInternally (destroy (run (newWatcher st) es)) = {} \<and>
   pendingExternalPaths (destroy (run (newWatcher st) es)) = {} \<and>
   snapshots (destroy (run (newWatcher st) es)) = Map.empty \<and>
   expire t (destroy (run (newWatcher st) es)) = destroy (run (newWatcher st) es)"
proof -
  have "scheduled (destroy (run (newWatcher st) es)) = []"
    by (rule destroy_scheduled [OF timers_wf_reachable])
  moreover from this
  have "expire t (destroy (run (newWatcher st) es)) = destroy (run (newWatcher st) es)"
    by (simp add: expire_def)
  ultimately show ?thesis by (simp add: destroy_def)
qed

theorem destroy_cancels_and_clears_witness:
  "(let s = run (newWatcher DEFAULT_SETTINGS)
              [Create (TFile ''a.md'' ''md'') ''s0'', MarkAsInternalEdit ''a.md'',
               MarkAsInternalEdit ''b.md'', Modify (TFile ''a.md'' ''md'') ''s1'' []]
    in map fst (scheduled s) = [1, 2] \<and> scheduled (destroy s) = [] \<and>
       debounceTimers (destroy s) = [] \<and> recentlyEditedInternally (destroy s) = {} \<and>
       pendingExternalPaths (destroy s) = {} \<and> snapshots (destroy s) = Map.empty \<and>
       expire 1 (destroy s) = destroy s \<and> expire 2 (destroy s) = destroy s)"
  using destroy_cancels_and_clears [of DEFAULT_SETTINGS
      "[Create (TFile ''a.md'' ''md'') ''s0'', MarkAsInternalEdit ''a.md'',
        MarkAsInternalEdit ''b.md'', Modify (TFile ''a.md'' ''md'') ''s1'' []]" 1]
    destroy_cancels_and_clears [of DEFAULT_SETTINGS
      "[Create (TFile ''a.md'' ''md'') ''s0'', MarkAsInternalEdit ''a.md'',
        MarkAsInternalEdit ''b.md'', Modify (TFile ''a.md'' ''md'') ''s1'' []]" 2]
  by (simp add: Let_def run_def newWatcher_def DEFAULT_SETTINGS_def handleCreate_def
      markAsInternalEdit_def handleModify_def)

lemma at_most_one_timer:
  assumes "timers_wf s"
  shows "length (filter (\<lambda>e. snd e = p) (scheduled s)) \<le> 1"
proof -
  have d: "distinct (scheduled s)" using assms by (simp add: timers_wf_def distinct_map)
  have "set (filter (\<lambda>e. snd e = p) (scheduled s)) \<subseteq> {(the (map_of (debounceTimers s) p), p)}"
    using assms by (auto simp: timers_wf_def)
  moreover have "distinct (filter (\<lambda>e. snd e = p) (scheduled s))" using d by simp
  ultimately have "length (filter (\<lambda>e. snd e = p) (scheduled s))
      \<le> card {(the (map_of (debounceTimers s) p), p)}"
    by (metis card_mono distinct_card finite.emptyI finite.insertI)
  then show ?thesis by simp
qed

lemma markAsInternalEdit_replaces:
  assumes "timers_wf s"
  shows "filter (\<lambda>e. snd e = p) (scheduled (markAsInternalEdit p s)) = [(Suc (lastTimer s), p)]"
proof -
  have old: "map_of (debounceTimers s) q = Some t \<and> 0 < t"
    if "(t, q) \<in> set (scheduled s)" for t q
    using assms that by (auto simp: timers_wf_def)
  have "filter (\<lambda>e. snd e = p) (filter (\<lambda>e. fst e \<noteq> t) (scheduled s)) = []"
    if "map_of (debounceTimers s) p = Some t" for t
    using that by (auto simp: filter_empty_conv dest!: old)
  moreover have "filter (\<lambda>e. snd e = p) (scheduled s) = []"
    if "map_of (debounceTimers s) p = None"
    using that by (auto simp: filter_empty_conv dest!: old)
  moreover have "filter (\<lambda>e. snd e = p) (scheduled s) = []"
    if "map_of (debounceTimers s) p = Some 0"
    using that by (auto simp: filter_empty_conv dest!: old)
  ultimately show ?thesis
    by (auto simp: markAsInternalEdit_def Let_def clearTimeout_def split: option.splits)
qed

text \<open>
  Claim C7. In every state a watcher can reach from its construction, at most one
  scheduled timeout belongs to any path \<open>p\<close>; and after \<open>markAsInternalEdit p\<close> the
  only scheduled timeout of \<open>p\<close> is the new one, stored under the key \<open>p\<close>: whatever
  timeout the path had before has been cleared.
\<close>

theorem one_timer_per_path:
  "length (filter (\<lambda>e. snd e = p) (scheduled (run (newWatcher st) es))) \<le> 1 \<and>
   filter (\<lambda>e. snd e = p) (scheduled (markAsInternalEdit p (run (newWatcher st) es)))
     = [(Suc (lastTimer (run (newWatcher st) es)), p)] \<and>
   map_of (debounceTimers (markAsInternalEdit p (run (newWatcher st) es))) p
     = Some (Suc (lastTimer (run (newWatcher st) es)))"
proof -
  have "map_of (debounceTimers (markAsInternalEdit p s)) p = Some (Suc (lastTimer s))" for s
    by (simp add: markAsInternalEdit_def Let_def clearTimeout_def update_conv' split: option.splits)
  then show ?thesis
    using at_most_one_timer [OF timers_wf_reachable, of p st es]
    by (simp add: markAsInternalEdit_replaces timers_wf_reachable)
qed

theorem one_timer_per_path_witness:
  "(let s = run (newWatcher DEFAULT_SETTINGS)
              [MarkAsInternalEdit ''a.md'', MarkAsInternalEdit ''b.md'', MarkAsInternalEdit ''a.md'']
    in scheduled s = [(2, ''b.md''), (3, ''a.md'')] \<and>
       length (filter (\<lambda>e. snd e = ''a.md'') (scheduled s)) \<le> 1 \<and>
       filter (\<lambda>e. snd e = ''a.md'') (scheduled (markAsInternalEdit ''a.md'' s)) = [(4, ''a.md'')] \<and>
       map_of (debounceTimers (markAsInternalEdit ''a.md'' s)) ''a.md'' = Some 4)"
  using one_timer_per_path [of "''a.md''" DEFAULT_SETTINGS
      "[MarkAsInternalEdit ''a.md'', MarkAsInternalEdit ''b.md'', MarkAsInternalEdit ''a.md'']"]
  by (simp add: Let_def run_def newWatcher_def DEFAULT_SETTINGS_def markAsInternalEdit_def
      clearTimeout_def)

subsection \<open>Accumulation while a path is pending\<close>

text \<open>
  The events that leave the baseline of \<open>p\<close> alone: every modification, marker and
  timeout, and the creations, deletions, renames, resolutions and initial reads of other
  paths. \<open>destroy\<close> clears everything.
\<close>

fun keeps_baseline :: "string \<Rightarrow> event \<Rightarrow> bool" where
  "keeps_baseline p (Start files) = (p \<notin> set (map fst files))"
| "keeps_baseline p (Modify file content leaves) = True"
| "keeps_baseline p (Create file content) = (path file \<noteq> p)"
| "keeps_baseline p (Delete file) = (path file \<noteq> p)"
| "keeps_baseline p (Rename file oldPath) = (path file \<noteq> p \<and> oldPath \<noteq> p)"
| "keeps_baseline p (UpdateSnapshot q content) = (q \<noteq> p)"
| "keeps_baseline p (MarkAsInternalEdit q) = True"
| "keeps_baseline p (TimerFires t) = True"
| "keeps_baseline p Destroy = False"
| "keeps_baseline p (SetEnabled b) = True"
| "keeps_baseline p (SetDebounceMs n) = True"

text \<open>
  \<open>baseline_frozen p b s s'\<close>: in \<open>s'\<close> the path \<open>p\<close> is pending with snapshot \<open>b\<close>,
  the reports of \<open>s\<close> are still there, and every report about \<open>p\<close> added since \<open>s\<close>
  carries \<open>b\<close> as its old content.
\<close>

definition reports_since :: "FileWatcher \<Rightarrow> FileWatcher \<Rightarrow> (string \<times> string \<times> string) list" where
  "reports_since s s' = drop (length (reported s)) (reported s')"

definition baseline_frozen :: "string \<Rightarrow> string \<Rightarrow> FileWatcher \<Rightarrow> FileWatcher \<Rightarrow> bool" where
  "baseline_frozen p b s s' \<longleftrightarrow>
     snapshots s' p = Some b \<and> p \<in> pendingExternalPaths s' \<and>
     take (length (reported s)) (reported s') = reported s \<and>
     list_all (\<lambda>(q, oldContent, newContent). q = p \<longrightarrow> oldContent = b) (reports_since s s')"

lemma baseline_frozen_refl:
  "snapshots s p = Some b \<Longrightarrow> p \<in> pendingExternalPaths s \<Longrightarrow> baseline_frozen p b s s"
  by (simp add: baseline_frozen_def reports_since_def)

lemma baseline_frozen_trans:
  assumes "baseline_frozen p b s s'" "baseline_frozen p b s' s''"
  shows "baseline_frozen p b s s''"
proof -
  obtain rs where rs: "reported s' = reported s @ rs"
    using assms(1) by (metis append_take_drop_id baseline_frozen_def)
  obtain rs' where rs': "reported s'' = reported s' @ rs'"
    using assms(2) by (metis append_take_drop_id baseline_frozen_def)
  show ?thesis
    using assms by (simp add: baseline_frozen_def reports_since_def rs rs')
qed

lemma start_other:
  "p \<notin> set (map fst files) \<Longrightarrow> fold (\<lambda>(q, content) m. m(q \<mapsto> content)) files m p = m p"
  by (induction files arbitrary: m) auto

lemma baseline_frozen_step:
  assumes "snapshots s p = Some b" "p \<in> pendingExternalPaths s" "keeps_baseline p e"
  shows "baseline_frozen p b s (step s e)"
proof (cases e)
  case (Modify f c ls)
  then show ?thesis
    using assms
    by (auto simp: baseline_frozen_def reports_since_def handleModify_def onExternalChange_def
        split: option.splits)
next
  case (Start files)
  then show ?thesis
    using assms by (simp add: baseline_frozen_def reports_since_def start_def start_other)
next
  case (Rename f oldPath)
  then show ?thesis
    using assms
    by (auto simp: baseline_frozen_def reports_since_def handleRename_def Let_def
        split: option.splits)
next
  case (MarkAsInternalEdit q)
  then show ?thesis
    using assms
    by (auto simp: baseline_frozen_def reports_since_def markAsInternalEdit_def Let_def
        clearTimeout_def split: option.splits)
next
  case (TimerFires t)
  then show ?thesis
    using assms
    by (auto simp: baseline_frozen_def reports_since_def expire_def split: option.splits)
qed (use assms in \<open>auto simp: baseline_frozen_def reports_since_def handleCreate_def
      handleDelete_def updateSnapshot_def\<close>)

lemma baseline_frozen_run:
  "snapshots s p = Some b \<Longrightarrow> p \<in> pendingExternalPaths s \<Longrightarrow> list_all (keeps_baseline p) es \<Longrightarrow>
   baseline_frozen p b s (run s es)"
proof (induction es arbitrary: s)
  case Nil
  then show ?case by (simp add: run_Nil baseline_frozen_refl)
next
  case (Cons e es)
  have 1: "baseline_frozen p b s (step s e)"
    using Cons.prems by (simp add: baseline_frozen_step)
  then have "baseline_frozen p b (step s e) (run (step s e) es)"
    using Cons.prems by (intro Cons.IH) (simp_all add: baseline_frozen_def)
  then show ?case using 1 by (simp add: run_Cons baseline_frozen_trans)
qed

text \<open>
  Claim C2 as stated fails for a pending path that has lost its snapshot. The external
  edit of \<open>a.md\<close> makes it pending; the file is renamed to \<open>b.md\<close>, which moves the
  snapshot and leaves the pending entry behind; another file is renamed to \<open>a.md\<close>.
  The next modification of \<open>a.md\<close> finds no snapshot and stores the new content as the
  snapshot of the path, which is still pending; the modification after that is reported
  against this new snapshot, not against the one from when the path became pending.
\<close>

theorem pending_snapshot_unset_counterexample:
  "(let s = run (newWatcher DEFAULT_SETTINGS)
              [Create (TFile ''a.md'' ''md'') ''s0'',
               Modify (TFile ''a.md'' ''md'') ''s1'' [],
               Rename (TFile ''b.md'' ''md'') ''a.md'',
               Rename (TFile ''a.md'' ''md'') ''n.txt''];
        s' = handleModify s (TFile ''a.md'' ''md'') ''s2'' [];
        s'' = handleModify s' (TFile ''a.md'' ''md'') ''s3'' []
    in ''a.md'' \<in> pendingExternalPaths s \<and>
       reported s = [(''a.md'', ''s0'', ''s1'')] \<and>
       snapshots s ''a.md'' = None \<and>
       snapshots s' ''a.md'' = Some ''s2'' \<and>
       ''a.md'' \<in> pendingExternalPaths s' \<and>
       reported s'' = [(''a.md'', ''s0'', ''s1''), (''a.md'', ''s2'', ''s3'')])"
  by (simp add: Let_def run_def newWatcher_def DEFAULT_SETTINGS_def handleCreate_def
      handleModify_def handleRename_def onExternalChange_def)

text \<open>
  Claim C2, amended. While a path is pending and has a snapshot \<open>b\<close>, \<open>handleModify\<close>
  (of any file, with any content) leaves that snapshot at \<open>b\<close> and the path pending, and
  every report it emits for the path carries \<open>b\<close> as old content; the same holds along
  every run of events that keep the baseline. \<open>b\<close> is the snapshot from the moment the
  path became pending: the \<open>handleModify\<close> that adds the path to the pending set leaves
  the snapshot as it was and reports it as old content. \<open>updateSnapshot p c\<close> sets the
  snapshot of \<open>p\<close> to \<open>c\<close> and removes \<open>p\<close> from the pending set, so the next external
  edit of \<open>p\<close> (detection enabled, no live marker, no view showing the content) is
  reported against \<open>c\<close>.
\<close>

theorem pending_baseline_frozen:
  "(p \<in> pendingExternalPaths s \<and> snapshots s p = Some b \<longrightarrow>
      baseline_frozen p b s (handleModify s file content leaves)) \<and>
   (p \<in> pendingExternalPaths s \<and> snapshots s p = Some b \<and> list_all (keeps_baseline p) es \<longrightarrow>
      baseline_frozen p b s (run s es)) \<and>
   (p \<notin> pendingExternalPaths s \<and> p \<in> pendingExternalPaths (handleModify s file content leaves) \<longrightarrow>
      snapshots (handleModify s file content leaves) p = snapshots s p \<and>
      reported (handleModify s file content leaves) = reported s @ [(p, the (snapshots s p), content)]) \<and>
   snapshots (updateSnapshot p c s) p = Some c \<and>
   p \<notin> pendingExternalPaths (updateSnapshot p c s) \<and>
   (enabled (settings s) \<and> c' \<noteq> c \<and> p \<notin> recentlyEditedInternally s \<and>
    \<not> editorHasContent leaves' p c' \<longrightarrow>
      reported (handleModify (updateSnapshot p c s) (TFile p ''md'') c' leaves')
        = reported s @ [(p, c, c')] \<and>
      snapshots (handleModify (updateSnapshot p c s) (TFile p ''md'') c' leaves') p = Some c \<and>
      p \<in> pendingExternalPaths (handleModify (updateSnapshot p c s) (TFile p ''md'') c' leaves'))"
proof -
  have "baseline_frozen p b s (handleModify s file content leaves)"
    if "p \<in> pendingExternalPaths s" "snapshots s p = Some b"
    using baseline_frozen_step [of s p b "Modify file content leaves"] that by simp
  moreover have "snapshots (handleModify s file content leaves) p = snapshots s p \<and>
      reported (handleModify s file content leaves) = reported s @ [(p, the (snapshots s p), content)]"
    if "p \<notin> pendingExternalPaths s" "p \<in> pendingExternalPaths (handleModify s file content leaves)"
    using that
    by (auto simp: handleModify_def onExternalChange_def split: option.splits if_splits)
  ultimately show ?thesis
    by (auto simp: baseline_frozen_run updateSnapshot_def handleModify_def onExternalChange_def)
qed

text \<open>
  The theorem along the run of the specification: snapshot \<open>s0\<close>, external edits to
  \<open>s1\<close> and \<open>s2\<close>, resolution with \<open>s2\<close>, external edit to \<open>s3\<close>.
\<close>

theorem pending_baseline_frozen_witness:
  "(let f = TFile ''a.md'' ''md'';
        s0 = (newWatcher DEFAULT_SETTINGS)\<lparr>snapshots := [''a.md'' \<mapsto> ''s0'']\<rparr>;
        s1 = handleModify s0 f ''s1'' [];
        s2 = handleModify s1 f ''s2'' [];
        s3 = updateSnapshot ''a.md'' ''s2'' s2;
        s4 = handleModify s3 f ''s3'' []
    in ''a.md'' \<notin> pendingExternalPaths s0 \<and> ''a.md'' \<in> pendingExternalPaths s1 \<and>
       snapshots s1 ''a.md'' = Some ''s0'' \<and> reported s1 = [(''a.md'', ''s0'', ''s1'')] \<and>
       baseline_frozen ''a.md'' ''s0'' s1 s2 \<and>
       baseline_frozen ''a.md'' ''s0'' s1 (run s1 [Modify f ''s2'' [], MarkAsInternalEdit ''a.md'']) \<and>
       reported s2 = [(''a.md'', ''s0'', ''s1''), (''a.md'', ''s0'', ''s2'')] \<and>
       snapshots s3 ''a.md'' = Some ''s2'' \<and> ''a.md'' \<notin> pendingExternalPaths s3 \<and>
       reported s4 = [(''a.md'', ''s0'', ''s1''), (''a.md'', ''s0'', ''s2''), (''a.md'', ''s2'', ''s3'')])"
proof -
  define f where "f = TFile ''a.md'' ''md''"
  define s0 where "s0 = (newWatcher DEFAULT_SETTINGS)\<lparr>snapshots := [''a.md'' \<mapsto> ''s0'']\<rparr>"
  define s1 where "s1 = handleModify s0 f ''s1'' []"
  define s2 where "s2 = handleModify s1 f ''s2'' []"
  have e1: "s1 = s0\<lparr>pendingExternalPaths := {''a.md''}, reported := [(''a.md'', ''s0'', ''s1'')]\<rparr>"
    by (simp add: s1_def s0_def f_def newWatcher_def DEFAULT_SETTINGS_def handleModify_def
        onExternalChange_def)
  have e2: "s2 = s1\<lparr>reported := [(''a.md'', ''s0'', ''s1''), (''a.md'', ''s0'', ''s2'')]\<rparr>"
    by (simp add: s2_def e1 s0_def f_def newWatcher_def DEFAULT_SETTINGS_def handleModify_def
        onExternalChange_def)
  have facts: "''a.md'' \<notin> pendingExternalPaths s0" "''a.md'' \<in> pendingExternalPaths s1"
    "snapshots s1 ''a.md'' = Some ''s0''" "enabled (settings s2)"
    "''a.md'' \<notin> recentlyEditedInternally s2" "snapshots s0 ''a.md'' = Some ''s0''"
    "reported s0 = []"
    by (simp_all add: e2 e1 s0_def newWatcher_def DEFAULT_SETTINGS_def)
  note a = pending_baseline_frozen [of "''a.md''" s0 "''s0''" f "''s1''" "[]" "[]" "''s2''" "''s3''" "[]"]
  note b = pending_baseline_frozen [of "''a.md''" s1 "''s0''" f "''s2''" "[]"
      "[Modify f ''s2'' [], MarkAsInternalEdit ''a.md'']" "''s2''" "''s3''" "[]"]
  note c = pending_baseline_frozen [of "''a.md''" s2 "''s0''" f "''s2''" "[]" "[]" "''s2''" "''s3''" "[]"]
  have r1: "snapshots s1 ''a.md'' = Some ''s0'' \<and> reported s1 = [(''a.md'', ''s0'', ''s1'')]"
    using a facts by (simp add: s1_def [symmetric])
  have r2: "baseline_frozen ''a.md'' ''s0'' s1 s2 \<and>
       baseline_frozen ''a.md'' ''s0'' s1 (run s1 [Modify f ''s2'' [], MarkAsInternalEdit ''a.md''])"
    using b facts by (simp add: s2_def [symmetric])
  have r3: "snapshots (updateSnapshot ''a.md'' ''s2'' s2) ''a.md'' = Some ''s2'' \<and>
      ''a.md'' \<notin> pendingExternalPaths (updateSnapshot ''a.md'' ''s2'' s2) \<and>
      reported (handleModify (updateSnapshot ''a.md'' ''s2'' s2) f ''s3'' [])
        = reported s2 @ [(''a.md'', ''s2'', ''s3'')]"
    using c facts by (simp add: f_def)
  show ?thesis
    unfolding Let_def f_def [symmetric] s0_def [symmetric] s1_def [symmetric] s2_def [symmetric]
    using r1 r2 r3 facts by (simp add: e2)
qed

section \<open>The range folder (computeUnchangedRanges)\<close>

text \<open>
  The editor's document type \<open>Text\<close>, as far as the function reads it: the document is
  its list of lines; line breaks count one character each. \<open>doc.lines\<close> is the number
  of lines, \<open>doc.length\<close> the number of characters, \<open>doc.lineAt(pos)\<close> the line that
  holds offset \<open>pos\<close> and \<open>doc.line(n)\<close> the line with the 1-based number \<open>n\<close>; both
  raise a RangeError outside the document. A line carries its first offset, the offset
  after its last character, and its number (the fields \<open>from\<close>, \<open>to\<close>, \<open>number\<close>).
\<close>

type_synonym Text = "string list"

record Line =
  line_from :: int
  line_to :: int
  line_number :: int

definition doc_lines :: "Text \<Rightarrow> int" where
  "doc_lines doc = int (length doc)"

definition doc_length :: "Text \<Rightarrow> int" where
  "doc_length doc = (\<Sum>l\<leftarrow>doc. int (length l)) + int (length doc) - 1"

datatype error = RangeError | TypeError

fun line_scan :: "string list \<Rightarrow> int \<Rightarrow> int \<Rightarrow> (Line \<Rightarrow> bool) \<Rightarrow> error + Line" where
  "line_scan [] offset n found = Inl RangeError"
| "line_scan (l # ls) offset n found =
     (let this = \<lparr>line_from = offset, line_to = offset + int (length l), line_number = n\<rparr>
      in if found this then Inr this
         else line_scan ls (offset + int (length l) + 1) (n + 1) found)"

definition doc_lineAt :: "Text \<Rightarrow> int \<Rightarrow> error + Line" where
  "doc_lineAt doc pos =
     (if pos < 0 \<or> pos > doc_length doc then Inl RangeError
      else line_scan doc 0 1 (\<lambda>l. pos \<le> line_to l))"

definition doc_line :: "Text \<Rightarrow> int \<Rightarrow> error + Line" where
  "doc_line doc n =
     (if n < 1 \<or> n > doc_lines doc then Inl RangeError
      else line_scan doc 0 1 (\<lambda>l. line_number l = n))"

text \<open>The interface \<open>FoldRange\<close> (fields \<open>from\<close>, \<open>to\<close>, \<open>lines\<close>) and the chunks of the merge view.\<close>

record FoldRange =
  range_from :: int
  range_to :: int
  range_lines :: int

record chunk =
  fromA :: int
  toA :: int
  fromB :: int
  toB :: int

datatype side = SideA | SideB

text \<open>
  The body of the loop that tests a gap and pushes its range. \<open>doc.line\<close> is only
  called inside the test, and an exception of it would end the function.
\<close>

definition pushRange :: "Text \<Rightarrow> int \<Rightarrow> int \<Rightarrow> int \<Rightarrow> error + FoldRange list" where
  "pushRange doc minSize startLine endLine =
     (let lineCount = endLine - startLine + 1
      in if lineCount \<ge> minSize \<and> startLine \<ge> 1 \<and> endLine \<le> doc_lines doc \<and> startLine \<le> endLine
         then (case doc_line doc startLine of
                 Inl e \<Rightarrow> Inl e
               | Inr firstLine \<Rightarrow>
                   (case doc_line doc endLine of
                      Inl e \<Rightarrow> Inl e
                    | Inr lastLine \<Rightarrow>
                        Inr [\<lparr>range_from = line_from firstLine, range_to = line_to lastLine,
                              range_lines = lineCount\<rparr>]))
         else Inr [])"

text \<open>
  The loop \<open>for (i = 0; i <= chunks.length; i++)\<close>, with the index \<open>i\<close>, the variable
  \<open>prevEndLine\<close> and the chunks from index \<open>i\<close> on; the empty list is the last round,
  where \<open>chunk\<close> is null.
\<close>

fun rangesLoop ::
    "Text \<Rightarrow> side \<Rightarrow> int \<Rightarrow> int \<Rightarrow> nat \<Rightarrow> int \<Rightarrow> chunk list \<Rightarrow> error + FoldRange list" where
  "rangesLoop doc sd margin minSize i prevEndLine [] =
     (let startLine = (if i = 0 then 1 else prevEndLine + 1 + margin);
          endLine = doc_lines doc
      in pushRange doc minSize startLine endLine)"
| "rangesLoop doc sd margin minSize i prevEndLine (c # rest) =
     (let startLine = (if i = 0 then 1 else prevEndLine + 1 + margin);
          chunkStart = (case sd of SideA \<Rightarrow> fromA c | SideB \<Rightarrow> fromB c)
      in case doc_lineAt doc chunkStart of
           Inl e \<Rightarrow> Inl e
         | Inr startsIn \<Rightarrow>
             (let endLine = line_number startsIn - 1 - margin
              in case pushRange doc minSize startLine endLine of
                   Inl e \<Rightarrow> Inl e
                 | Inr pushed \<Rightarrow>
                     (let chunkEnd = (case sd of SideA \<Rightarrow> toA c | SideB \<Rightarrow> toB c)
                      in case doc_lineAt doc (min (doc_length doc) chunkEnd) of
                           Inl e \<Rightarrow> Inl e
                         | Inr endsIn \<Rightarrow>
                             (case rangesLoop doc sd margin minSize (Suc i) (line_number endsIn) rest of
                                Inl e \<Rightarrow> Inl e
                              | Inr later \<Rightarrow> Inr (pushed @ later)))))"

definition computeUnchangedRanges ::
    "Text \<Rightarrow> chunk list \<Rightarrow> side \<Rightarrow> int \<Rightarrow> int \<Rightarrow> error + FoldRange list" where
  "computeUnchangedRanges doc chunks sd margin minSize =
     rangesLoop doc sd margin minSize 0 0 chunks"























section \<open>The patience diff engine (patienceDiff)\<close>

text \<open>
  Reading a JavaScript array: \<open>arr[i]\<close> is \<open>undefined\<close> (here \<open>None\<close>) outside the array.
  The \<open>line\<close> of a \<open>DiffEntry\<close> is what such a read returned.
\<close>

definition js_get :: "'a list \<Rightarrow> int \<Rightarrow> 'a option" where
  "js_get arr i = (if 0 \<le> i \<and> i < int (length arr) then Some (arr ! nat i) else None)"

record DiffEntry =
  line :: "string option"
  aIndex :: int
  bIndex :: int

text \<open>
  \<open>findUnique\<close>. The Map of the first loop is an association list in insertion order
  from a line to its count and last index; \<open>AList.update\<close> is \<open>Map.set\<close> (it replaces
  the entry of a present key in place and appends an absent one). \<open>countLine\<close> is the
  body of the first loop; the second loop keeps, in order, the keys counted once.
\<close>

definition countLine ::
    "string list \<Rightarrow> int \<Rightarrow> (string option \<times> nat \<times> int) list \<Rightarrow> (string option \<times> nat \<times> int) list" where
  "countLine arr i m =
     (case map_of m (js_get arr i) of
        Some (count, index) \<Rightarrow> AList.update (js_get arr i) (Suc count, i) m
      | None \<Rightarrow> AList.update (js_get arr i) (1, i) m)"

definition findUnique :: "string list \<Rightarrow> int \<Rightarrow> int \<Rightarrow> (string option \<times> int) list" where
  "findUnique arr lo hi =
     (let counted = fold (countLine arr) [lo..hi] []
      in map (\<lambda>(key, count, index). (key, index))
             (filter (\<lambda>(key, count, index). count = 1) counted))"

text \<open>\<open>uniqueCommon\<close>: the keys of \<open>ma\<close>, in order, that \<open>mb\<close> holds too, with both indices.\<close>

definition uniqueCommon ::
    "string list \<Rightarrow> int \<Rightarrow> int \<Rightarrow> string list \<Rightarrow> int \<Rightarrow> int \<Rightarrow> (string option \<times> int \<times> int) list" where
  "uniqueCommon aArr aLo aHi bArr bLo bHi =
     (let ma = findUnique aArr aLo aHi;
          mb = findUnique bArr bLo bHi
      in concat (map (\<lambda>(key, aIdx). case map_of mb key of
                                         Some bIdx \<Rightarrow> [(key, aIdx, bIdx)]
                                       | None \<Rightarrow> []) ma))"

text \<open>
  \<open>longestCommonSubsequence\<close>. A value of the map is an object with \<open>indexA\<close>,
  \<open>indexB\<close> and, once set, \<open>prev\<close>. \<open>place\<close> is the body of the loop over the values
  for one value: it walks the piles \<open>ja\<close> from the first while the last element of the
  pile has a smaller \<open>indexB\<close>, carrying the last element of the pile before
  (\<open>ja[i - 1]\<close>, absent for \<open>i = 0\<close>) as the \<open>prev\<close> to set, pushes the value on the pile
  it stops at, and opens a new pile past the last one. \<open>chain\<close> follows \<open>prev\<close> from a
  value to the end. A pile is created with its first element, so \<open>last\<close> is only
  taken of piles that have one (\<open>piles_ok\<close> below).
\<close>

datatype node = Node (indexA: int) (indexB: int) (prev: "node option")

fun place :: "node list list \<Rightarrow> node option \<Rightarrow> int \<Rightarrow> int \<Rightarrow> node list list" where
  "place [] below a b = [[Node a b below]]"
| "place (pile # piles) below a b =
     (if indexB (last pile) < b then pile # place piles (Some (last pile)) a b
      else (pile @ [Node a b below]) # piles)"

fun chain :: "node \<Rightarrow> node list" where
  "chain (Node a b None) = [Node a b None]"
| "chain (Node a b (Some p)) = Node a b (Some p) # chain p"

definition longestCommonSubsequence :: "(string option \<times> int \<times> int) list \<Rightarrow> node list" where
  "longestCommonSubsequence abMap =
     (let ja = fold (\<lambda>(key, a, b) ja. place ja None a b) abMap []
      in if ja = [] then [] else rev (chain (last (last ja))))"

text \<open>
  \<open>patienceDiff\<close>. Every function returns the entries it pushes onto \<open>result\<close>, in
  order. \<open>addToResult\<close> is the entry of one push. \<open>matchStart\<close>, \<open>matchEnd\<close> and
  \<open>addEnd\<close> are the three while loops of \<open>addSubMatch\<close>: the first returns its pushes
  and the moved \<open>aLo\<close>, \<open>bLo\<close>, the second the moved \<open>aHi\<close>, \<open>bHi\<close>, the third its
  pushes.
\<close>

definition addToResult :: "string list \<Rightarrow> string list \<Rightarrow> int \<Rightarrow> int \<Rightarrow> DiffEntry" where
  "addToResult aLines bLines i j =
     \<lparr>line = (if i \<ge> 0 then js_get aLines i else js_get bLines j), aIndex = i, bIndex = j\<rparr>"

function matchStart ::
    "string list \<Rightarrow> string list \<Rightarrow> int \<Rightarrow> int \<Rightarrow> int \<Rightarrow> int \<Rightarrow> DiffEntry list \<times> int \<times> int" where
  "matchStart aLines bLines aLo aHi bLo bHi =
     (if aLo \<le> aHi \<and> bLo \<le> bHi \<and> js_get aLines aLo = js_get bLines bLo
      then (case matchStart aLines bLines (aLo + 1) aHi (bLo + 1) bHi of
              (pushed, aLo', bLo') \<Rightarrow> (addToResult aLines bLines aLo bLo # pushed, aLo', bLo'))
      else ([], aLo, bLo))"
  by pat_completeness auto
termination
  by (relation "measure (\<lambda>(aLines, bLines, aLo, aHi, bLo, bHi). nat (aHi - aLo + 1))") auto

function matchEnd ::
    "string list \<Rightarrow> string list \<Rightarrow> int \<Rightarrow> int \<Rightarrow> int \<Rightarrow> int \<Rightarrow> int \<times> int" where
  "matchEnd aLines bLines aLo aHi bLo bHi =
     (if aLo \<le> aHi \<and> bLo \<le> bHi \<and> js_get aLines aHi = js_get bLines bHi
      then matchEnd aLines bLines aLo (aHi - 1) bLo (bHi - 1)
      else (aHi, bHi))"
  by pat_completeness auto
termination
  by (relation "measure (\<lambda>(aLines, bLines, aLo, aHi, bLo, bHi). nat (aHi - aLo + 1))") auto

function addEnd ::
    "string list \<Rightarrow> string list \<Rightarrow> int \<Rightarrow> int \<Rightarrow> int \<Rightarrow> DiffEntry list" where
  "addEnd aLines bLines aHi bHi aHiTemp =
     (if aHi < aHiTemp
      then addToResult aLines bLines (aHi + 1) (bHi + 1) # addEnd aLines bLines (aHi + 1) (bHi + 1) aHiTemp
      else [])"
  by pat_completeness auto
termination
  by (relation "measure (\<lambda>(aLines, bLines, aHi, bHi, aHiTemp). nat (aHiTemp - aHi))") auto

text \<open>
  The spans on which \<open>recurseLCS\<close> calls \<open>addSubMatch\<close> when the subsequence \<open>x\<close> is
  not empty, in the order of the calls: the span before \<open>x[0]\<close> under its test, the
  spans of the for loop (\<open>between\<close>), and the span from the last element under its test.
  \<open>hd x\<close> is \<open>x[0]\<close> and \<open>last x\<close> is \<open>x[i]\<close> after the loop; both are only read
  of a subsequence that is not empty.
\<close>

fun between :: "node list \<Rightarrow> (int \<times> int \<times> int \<times> int) list" where
  "between (x # y # xs) = (indexA x, indexA y - 1, indexB x, indexB y - 1) # between (y # xs)"
| "between xs = []"

definition subSpans :: "int \<Rightarrow> int \<Rightarrow> int \<Rightarrow> int \<Rightarrow> node list \<Rightarrow> (int \<times> int \<times> int \<times> int) list" where
  "subSpans aLo aHi bLo bHi x =
     (if aLo < indexA (hd x) \<or> bLo < indexB (hd x)
      then [(aLo, indexA (hd x) - 1, bLo, indexB (hd x) - 1)] else [])
     @ between x
     @ (if indexA (last x) \<le> aHi \<or> indexB (last x) \<le> bHi
        then [(indexA (last x), aHi, indexB (last x), bHi)] else [])"


subsection \<open>Properties of findUnique\<close>

text \<open>
  The invariant of the first loop after the indices \<open>seen\<close>: the keys are distinct and
  are the lines seen; every entry holds the number of occurrences of its line and an
  index where the line stands; the entries counted once are in increasing index order.
\<close>

definition counted_ok ::
    "string list \<Rightarrow> int list \<Rightarrow> (string option \<times> nat \<times> int) list \<Rightarrow> bool" where
  "counted_ok arr seen m \<longleftrightarrow>
     distinct (map fst m) \<and>
     fst ` set m = js_get arr ` set seen \<and>
     (\<forall>(key, count, index) \<in> set m.
        count = count_list (map (js_get arr) seen) key \<and> index \<in> set seen \<and>
        js_get arr index = key) \<and>
     sorted_wrt (<) (map (\<lambda>(key, count, index). index) (filter (\<lambda>(key, count, index). count = 1) m))"

lemma update_absent: "map_of m k = None \<Longrightarrow> AList.update k v m = m @ [(k, v)]"
  by (induction m) (auto split: if_splits)

lemma update_present_set:
  "distinct (map fst m) \<Longrightarrow> map_of m k = Some w \<Longrightarrow>
   set (AList.update k v m) = insert (k, v) (set m - {(k, w)})"
proof (induction m)
  case Nil
  then show ?case by simp
next
  case (Cons e m)
  show ?case
  proof (cases "fst e = k")
    case True
    then have "e = (k, w)" using Cons.prems by (cases e) auto
    moreover have "(k, w) \<notin> set m" using Cons.prems True by (force simp: image_iff)
    ultimately show ?thesis by auto
  next
    case False
    then show ?thesis using Cons by (cases e) auto
  qed
qed

lemma update_present_filter:
  "distinct (map fst m) \<Longrightarrow> \<not> P (k, v) \<Longrightarrow> k \<in> fst ` set m \<Longrightarrow>
   filter P (AList.update k v m) = filter (\<lambda>e. fst e \<noteq> k) (filter P m)"
proof (induction m)
  case Nil
  then show ?case by simp
next
  case (Cons e m)
  show ?case
  proof (cases "fst e = k")
    case True
    then have "k \<notin> fst ` set m" using Cons.prems by auto
    then have "\<forall>e \<in> set (filter P m). fst e \<noteq> k" by force
    then have "filter (\<lambda>e. fst e \<noteq> k) (filter P m) = filter P m"
      by (rule filter_True)
    then show ?thesis using True Cons.prems(2) by (cases e) auto
  next
    case False
    then show ?thesis using Cons by (cases e) auto
  qed
qed

lemma counted_ok_countLine:
  assumes ok: "counted_ok arr seen m" and later: "\<forall>j \<in> set seen. j < i"
  shows "counted_ok arr (seen @ [i]) (countLine arr i m)"
proof (cases "map_of m (js_get arr i)")
  case None
  then have new: "js_get arr i \<notin> fst ` set m" by (simp add: map_of_eq_None_iff)
  then have zero: "count_list (map (js_get arr) seen) (js_get arr i) = 0"
    using ok by (simp add: counted_ok_def count_list_0_iff)
  have upd: "countLine arr i m = m @ [(js_get arr i, 1, i)]"
    using None by (simp add: countLine_def update_absent)
  have old: "key \<noteq> js_get arr i" if "(key, c, idx) \<in> set m" for key c idx
    using that new by force
  have idx: "idx < i" if "(key, c, idx) \<in> set m" for key c idx
    using that ok later by (auto simp: counted_ok_def)
  show ?thesis
    using ok new zero
    by (auto simp: counted_ok_def upd sorted_wrt_append dest: old idx)
next
  case (Some w)
  obtain c idx where w: "w = (c, idx)" by (cases w)
  have km: "(js_get arr i, c, idx) \<in> set m" using Some w by (auto dest: map_of_SomeD)
  then have key: "js_get arr i \<in> fst ` set m" by force
  have d: "distinct (map fst m)" using ok by (simp add: counted_ok_def)
  have c: "c = count_list (map (js_get arr) seen) (js_get arr i)"
    using ok km by (auto simp: counted_ok_def)
  have cpos: "c \<ge> 1"
  proof -
    have "js_get arr i \<in> set (map (js_get arr) seen)" using ok key by (simp add: counted_ok_def)
    then show ?thesis unfolding c using count_list_0_iff [of "map (js_get arr) seen" "js_get arr i"]
      by (cases "count_list (map (js_get arr) seen) (js_get arr i)") auto
  qed
  have upd: "countLine arr i m = AList.update (js_get arr i) (Suc c, i) m"
    using Some w by (simp add: countLine_def)
  have s: "set (countLine arr i m) = insert (js_get arr i, Suc c, i) (set m - {(js_get arr i, c, idx)})"
    using update_present_set [OF d, of "js_get arr i" "(c, idx)"] Some w by (simp add: upd)
  have other: "key \<noteq> js_get arr i"
    if "(key, c', idx') \<in> set m" "(key, c', idx') \<noteq> (js_get arr i, c, idx)" for key c' idx'
  proof
    assume "key = js_get arr i"
    then have "(c', idx') = (c, idx)"
      using eq_key_imp_eq_value [OF d, of "js_get arr i" "(c', idx')" "(c, idx)"] that(1) km
      by simp
    then show False using that(2) \<open>key = js_get arr i\<close> by simp
  qed
  have f: "filter (\<lambda>(key, count, index). count = 1) (countLine arr i m)
      = filter (\<lambda>e. fst e \<noteq> js_get arr i) (filter (\<lambda>(key, count, index). count = 1) m)"
    unfolding upd using cpos by (intro update_present_filter [OF d _ key]) simp
  have "distinct (map fst (countLine arr i m))"
    by (simp add: upd distinct_update d)
  moreover have "fst ` set (countLine arr i m) = js_get arr ` set (seen @ [i])"
  proof -
    have "map fst (countLine arr i m) = map fst m"
      using key by (simp add: upd update_keys)
    then have "set (map fst (countLine arr i m)) = set (map fst m)" by simp
    then have "fst ` set (countLine arr i m) = fst ` set m" by (simp only: set_map)
    then show ?thesis using ok key by (auto simp: counted_ok_def)
  qed
  moreover have "\<forall>(key, count, index) \<in> set (countLine arr i m).
        count = count_list (map (js_get arr) (seen @ [i])) key \<and> index \<in> set (seen @ [i]) \<and>
        js_get arr index = key"
  proof (intro ballI)
    fix e assume e: "e \<in> set (countLine arr i m)"
    obtain key c' idx' where e3: "e = (key, c', idx')" by (cases e)
    show "case e of (key, count, index) \<Rightarrow>
        count = count_list (map (js_get arr) (seen @ [i])) key \<and> index \<in> set (seen @ [i]) \<and>
        js_get arr index = key"
    proof (cases "e = (js_get arr i, Suc c, i)")
      case True
      then show ?thesis using c by simp
    next
      case False
      then have m: "(key, c', idx') \<in> set m" "(key, c', idx') \<noteq> (js_get arr i, c, idx)"
        using e s e3 by auto
      have "c' = count_list (map (js_get arr) seen) key \<and> idx' \<in> set seen \<and>
          js_get arr idx' = key"
        using ok m(1) by (auto simp: counted_ok_def)
      then show ?thesis using other [OF m] by (simp add: e3)
    qed
  qed
  moreover have "sorted_wrt (<) (map (\<lambda>(key, count, index). index)
      (filter (\<lambda>(key, count, index). count = 1) (countLine arr i m)))"
  proof -
    have "sorted_wrt (\<lambda>x y. (case x of (key, count, index) \<Rightarrow> index)
                < (case y of (key, count, index) \<Rightarrow> index))
           (filter (\<lambda>(key, count, index). count = 1) m)"
      using ok by (simp add: counted_ok_def sorted_wrt_map)
    then have "sorted_wrt (\<lambda>x y. (case x of (key, count, index) \<Rightarrow> index)
                < (case y of (key, count, index) \<Rightarrow> index))
           (filter (\<lambda>e. fst e \<noteq> js_get arr i) (filter (\<lambda>(key, count, index). count = 1) m))"
      by (rule sorted_wrt_filter)
    then show ?thesis unfolding f by (simp only: sorted_wrt_map)
  qed
  ultimately show ?thesis by (simp add: counted_ok_def)
qed

lemma counted_ok_fold:
  "counted_ok arr seen m \<Longrightarrow> sorted_wrt (<) js \<Longrightarrow> \<forall>s \<in> set seen. \<forall>j \<in> set js. s < j \<Longrightarrow>
   counted_ok arr (seen @ js) (fold (countLine arr) js m)"
proof (induction js arbitrary: seen m)
  case Nil
  then show ?case by simp
next
  case (Cons j js)
  have 1: "counted_ok arr (seen @ [j]) (countLine arr j m)"
    using Cons.prems by (intro counted_ok_countLine) auto
  have "counted_ok arr ((seen @ [j]) @ js) (fold (countLine arr) js (countLine arr j m))"
    using Cons.prems by (intro Cons.IH [OF 1]) auto
  then show ?case by simp
qed

lemma counted_ok_span: "counted_ok arr [lo..hi] (fold (countLine arr) [lo..hi] [])"
  using counted_ok_fold [of arr "[]" "[]" "[lo..hi]"]
  by (simp add: counted_ok_def)

lemma findUnique_sound:
  "(key, i) \<in> set (findUnique arr lo hi) \<Longrightarrow>
   lo \<le> i \<and> i \<le> hi \<and> js_get arr i = key \<and> count_list (map (js_get arr) [lo..hi]) key = 1"
  using counted_ok_span [of arr lo hi]
  by (auto simp: findUnique_def counted_ok_def)

lemma findUnique_sorted: "sorted_wrt (<) (map snd (findUnique arr lo hi))"
proof -
  have "map snd (findUnique arr lo hi) =
      map (\<lambda>(key, count, index). index)
        (filter (\<lambda>(key, count, index). count = 1) (fold (countLine arr) [lo..hi] []))"
    by (simp add: findUnique_def case_prod_unfold)
  then show ?thesis using counted_ok_span [of arr lo hi] by (simp add: counted_ok_def)
qed

lemma findUnique_distinct: "distinct (map fst (findUnique arr lo hi))"
proof -
  have "map fst (findUnique arr lo hi) =
      map fst (filter (\<lambda>(key, count, index). count = 1) (fold (countLine arr) [lo..hi] []))"
    by (simp add: findUnique_def case_prod_unfold)
  then show ?thesis
    using counted_ok_span [of arr lo hi] by (simp add: counted_ok_def distinct_map_filter)
qed

subsection \<open>Properties of uniqueCommon\<close>

lemma uniqueCommon_sound:
  assumes "(key, i, j) \<in> set (uniqueCommon aArr aLo aHi bArr bLo bHi)"
  shows "(key, i) \<in> set (findUnique aArr aLo aHi) \<and> (key, j) \<in> set (findUnique bArr bLo bHi)"
  using assms
  by (auto simp: uniqueCommon_def Let_def split: option.splits dest: map_of_SomeD [OF sym])

lemma uniqueCommon_span:
  assumes "(key, i, j) \<in> set (uniqueCommon aArr aLo aHi bArr bLo bHi)"
  shows "aLo \<le> i \<and> i \<le> aHi \<and> bLo \<le> j \<and> j \<le> bHi \<and>
         js_get aArr i = key \<and> js_get bArr j = key"
  using uniqueCommon_sound [OF assms] by (auto dest: findUnique_sound)

lemma uniqueCommon_sorted:
  "sorted_wrt (<) (map (\<lambda>(key, i, j). i) (uniqueCommon aArr aLo aHi bArr bLo bHi))"
proof -
  have "map (\<lambda>(key, i, j). i)
          (concat (map (\<lambda>(key, aIdx). case map_of mb key of
                                         Some bIdx \<Rightarrow> [(key, aIdx, bIdx)]
                                       | None \<Rightarrow> []) ma))
        = map snd (filter (\<lambda>(key, aIdx). map_of mb key \<noteq> None) ma)"
    for ma :: "(string option \<times> int) list" and mb :: "(string option \<times> int) list"
    by (induction ma) (auto split: option.splits)
  then show ?thesis
    using sorted_wrt_filter [OF findUnique_sorted [of aArr aLo aHi, unfolded sorted_wrt_map]]
    by (simp add: uniqueCommon_def Let_def sorted_wrt_map)
qed

subsection \<open>Properties of longestCommonSubsequence\<close>

text \<open>
  Every value on a pile heads a chain that descends strictly in both indices and consists
  of values of the map; no pile is empty.
\<close>

definition below :: "node \<Rightarrow> node \<Rightarrow> bool" where
  "below p n \<longleftrightarrow> indexA p < indexA n \<and> indexB p < indexB n"

definition node_ok :: "(int \<times> int) set \<Rightarrow> node \<Rightarrow> bool" where
  "node_ok S n \<longleftrightarrow>
     sorted_wrt (\<lambda>x y. below y x) (chain n) \<and>
     (\<forall>m \<in> set (chain n). (indexA m, indexB m) \<in> S)"

definition piles_ok :: "(int \<times> int) set \<Rightarrow> node list list \<Rightarrow> bool" where
  "piles_ok S ja \<longleftrightarrow> (\<forall>pile \<in> set ja. pile \<noteq> [] \<and> (\<forall>n \<in> set pile. node_ok S n))"

lemma chain_Cons: "\<exists>rest. chain n = n # rest"
  by (induction n rule: chain.induct) auto

lemma node_ok_mono: "node_ok S n \<Longrightarrow> S \<subseteq> T \<Longrightarrow> node_ok T n"
  by (auto simp: node_ok_def)

lemma node_ok_new:
  assumes "case bel of None \<Rightarrow> True | Some p \<Rightarrow> node_ok S p \<and> indexB p < b"
    and "\<forall>(a', b') \<in> S. a' < a"
  shows "node_ok (insert (a, b) S) (Node a b bel)"
proof (cases bel)
  case None
  then show ?thesis by (simp add: node_ok_def)
next
  case (Some p)
  then have p: "node_ok S p" "indexB p < b" using assms(1) by simp_all
  obtain rest where rest: "chain p = p # rest" using chain_Cons by blast
  have "below y (Node a b (Some p))" if "y \<in> set (chain p)" for y
  proof -
    have "(indexA y, indexB y) \<in> S" using p(1) that by (simp add: node_ok_def)
    then have "indexA y < a" using assms(2) by auto
    moreover have "indexB y \<le> indexB p"
      using p(1) that by (auto simp: node_ok_def rest below_def)
    ultimately show ?thesis using p(2) by (simp add: below_def)
  qed
  then show ?thesis using p(1) Some by (auto simp: node_ok_def)
qed

lemma place_ok:
  assumes "piles_ok S ja"
    and "case bel of None \<Rightarrow> True | Some p \<Rightarrow> node_ok S p \<and> indexB p < b"
    and "\<forall>(a', b') \<in> S. a' < a"
  shows "piles_ok (insert (a, b) S) (place ja bel a b) \<and> place ja bel a b \<noteq> []"
  using assms
proof (induction ja arbitrary: bel)
  case Nil
  then show ?case using node_ok_new [where bel = bel and S = S and a = a and b = b] by (simp add: piles_ok_def)
next
  case (Cons pile piles)
  have mono: "node_ok (insert (a, b) S) n" if "node_ok S n" for n
    using that by (rule node_ok_mono) auto
  have pile: "pile \<noteq> []" "\<forall>n \<in> set pile. node_ok S n" and piles: "piles_ok S piles"
    using Cons.prems(1) by (auto simp: piles_ok_def)
  show ?case
  proof (cases "indexB (last pile) < b")
    case True
    have "node_ok S (last pile)" using pile by simp
    then have "piles_ok (insert (a, b) S) (place piles (Some (last pile)) a b)"
      using Cons.IH [of "Some (last pile)"] piles True Cons.prems(3) by simp
    then show ?thesis using True pile mono by (auto simp: piles_ok_def)
  next
    case False
    have "node_ok (insert (a, b) S) (Node a b bel)"
      using node_ok_new [where bel = bel and S = S and a = a and b = b] Cons.prems by simp
    then show ?thesis using False pile piles mono by (auto simp: piles_ok_def)
  qed
qed

lemma fold_place_ok:
  assumes "piles_ok S ja"
    and "sorted_wrt (<) (map (\<lambda>(key, i, j). i) es)"
    and "\<forall>(a', b') \<in> S. \<forall>(key, i, j) \<in> set es. a' < i"
  shows "piles_ok (S \<union> snd ` set es) (fold (\<lambda>(key, a, b) ja. place ja None a b) es ja) \<and>
         (es \<noteq> [] \<longrightarrow> fold (\<lambda>(key, a, b) ja. place ja None a b) es ja \<noteq> [])"
  using assms
proof (induction es arbitrary: S ja)
  case Nil
  then show ?case by simp
next
  case (Cons e es)
  obtain key a b where e: "e = (key, a, b)" by (cases e)
  have 1: "piles_ok (insert (a, b) S) (place ja None a b)" "place ja None a b \<noteq> []"
    using place_ok [where S = S and ja = ja and bel = None and a = a and b = b] Cons.prems by (auto simp: e)
  have 2: "\<forall>(a', b') \<in> insert (a, b) S. \<forall>(key, i, j) \<in> set es. a' < i"
    using Cons.prems(2,3) by (auto simp: e)
  have 3: "sorted_wrt (<) (map (\<lambda>(key, i, j). i) es)" using Cons.prems(2) by simp
  have r: "piles_ok (insert (a, b) S \<union> snd ` set es)
             (fold (\<lambda>(key, a, b) ja. place ja None a b) es (place ja None a b))"
    and ne: "es \<noteq> [] \<longrightarrow> fold (\<lambda>(key, a, b) ja. place ja None a b) es (place ja None a b) \<noteq> []"
    using Cons.IH [OF 1(1) 3 2] by simp_all
  have "fold (\<lambda>(key, a, b) ja. place ja None a b) es (place ja None a b) \<noteq> []"
    using ne 1(2) by (cases es) auto
  moreover have "insert (a, b) S \<union> snd ` set es = S \<union> snd ` set (e # es)"
    by (auto simp: e)
  ultimately show ?case using r by (simp add: e)
qed

lemma longestCommonSubsequence_ok:
  assumes "sorted_wrt (<) (map (\<lambda>(key, i, j). i) abMap)"
  shows "sorted_wrt below (longestCommonSubsequence abMap) \<and>
         (\<forall>n \<in> set (longestCommonSubsequence abMap). (indexA n, indexB n) \<in> snd ` set abMap) \<and>
         (abMap \<noteq> [] \<longrightarrow> longestCommonSubsequence abMap \<noteq> [])"
proof -
  let ?ja = "fold (\<lambda>(key, a, b) ja. place ja None a b) abMap []"
  have ok: "piles_ok (snd ` set abMap) ?ja" and ne: "abMap \<noteq> [] \<longrightarrow> ?ja \<noteq> []"
    using fold_place_ok [of "{}" "[]" abMap] assms by (simp_all add: piles_ok_def)
  show ?thesis
  proof (cases "?ja = []")
    case True
    then show ?thesis using ne by (simp add: longestCommonSubsequence_def)
  next
    case False
    then have "last ?ja \<in> set ?ja" by simp
    then have "last ?ja \<noteq> []" "\<forall>n \<in> set (last ?ja). node_ok (snd ` set abMap) n"
      using ok by (auto simp: piles_ok_def)
    then have top: "node_ok (snd ` set abMap) (last (last ?ja))" by simp
    obtain rest where rest: "chain (last (last ?ja)) = last (last ?ja) # rest"
      using chain_Cons by blast
    have x: "longestCommonSubsequence abMap = rev (chain (last (last ?ja)))"
      using False by (simp add: longestCommonSubsequence_def)
    have "rev (chain (last (last ?ja))) \<noteq> []" by (simp add: rest)
    then show ?thesis
      unfolding x using top by (simp add: node_ok_def sorted_wrt_rev)
  qed
qed

lemma uniqueCommon_anchors:
  assumes "n \<in> set (longestCommonSubsequence (uniqueCommon aArr aLo aHi bArr bLo bHi))"
  shows "aLo \<le> indexA n \<and> indexA n \<le> aHi \<and> bLo \<le> indexB n \<and> indexB n \<le> bHi \<and>
         js_get aArr (indexA n) = js_get bArr (indexB n)"
proof -
  have "(indexA n, indexB n) \<in> snd ` set (uniqueCommon aArr aLo aHi bArr bLo bHi)"
    using longestCommonSubsequence_ok [OF uniqueCommon_sorted] assms by blast
  then obtain key where "(key, indexA n, indexB n) \<in> set (uniqueCommon aArr aLo aHi bArr bLo bHi)"
    by force
  from uniqueCommon_span [OF this] show ?thesis by simp
qed

subsection \<open>The loops of addSubMatch\<close>

declare matchStart.simps [simp del] matchEnd.simps [simp del] addEnd.simps [simp del]

lemma matchStart_props:
  "matchStart aLines bLines aLo aHi bLo bHi = (pushed, aLo', bLo') \<Longrightarrow>
   aLo \<le> aLo' \<and> bLo' = bLo + (aLo' - aLo) \<and>
   \<not> (aLo' \<le> aHi \<and> bLo' \<le> bHi \<and> js_get aLines aLo' = js_get bLines bLo') \<and>
   (aLo \<le> aHi + 1 \<longrightarrow> aLo' \<le> aHi + 1) \<and> (bLo \<le> bHi + 1 \<longrightarrow> bLo' \<le> bHi + 1)"
proof (induction aLines bLines aLo aHi bLo bHi arbitrary: pushed rule: matchStart.induct)
  case (1 aLines bLines aLo aHi bLo bHi)
  show ?case
  proof (cases "aLo \<le> aHi \<and> bLo \<le> bHi \<and> js_get aLines aLo = js_get bLines bLo")
    case True
    obtain p where "matchStart aLines bLines (aLo + 1) aHi (bLo + 1) bHi = (p, aLo', bLo')"
      using "1.prems" True by (subst (asm) matchStart.simps) (auto split: prod.splits)
    from "1.IH" [OF True this] True show ?thesis by auto
  next
    case False
    then show ?thesis using "1.prems" by (subst (asm) matchStart.simps) auto
  qed
qed

lemma matchEnd_props:
  "matchEnd aLines bLines aLo aHi bLo bHi = (aHi', bHi') \<Longrightarrow>
   aHi' \<le> aHi \<and> bHi' = bHi - (aHi - aHi') \<and>
   (aLo \<le> aHi + 1 \<longrightarrow> aLo \<le> aHi' + 1) \<and> (bLo \<le> bHi + 1 \<longrightarrow> bLo \<le> bHi' + 1) \<and>
   (\<forall>k. 0 < k \<and> k \<le> aHi - aHi' \<longrightarrow> js_get aLines (aHi' + k) = js_get bLines (bHi' + k))"
proof (induction aLines bLines aLo aHi bLo bHi rule: matchEnd.induct)
  case (1 aLines bLines aLo aHi bLo bHi)
  show ?case
  proof (cases "aLo \<le> aHi \<and> bLo \<le> bHi \<and> js_get aLines aHi = js_get bLines bHi")
    case True
    then have r: "matchEnd aLines bLines aLo (aHi - 1) bLo (bHi - 1) = (aHi', bHi')"
      using "1.prems" by (subst (asm) matchEnd.simps) auto
    note ih = "1.IH" [OF True r]
    have "js_get aLines (aHi' + k) = js_get bLines (bHi' + k)"
      if "0 < k" "k \<le> aHi - aHi'" for k
    proof (cases "k = aHi - aHi'")
      case True
      then have "aHi' + k = aHi" "bHi' + k = bHi" using ih by auto
      then show ?thesis
        using \<open>aLo \<le> aHi \<and> bLo \<le> bHi \<and> js_get aLines aHi = js_get bLines bHi\<close> by simp
    next
      case False
      then show ?thesis using ih that by auto
    qed
    then show ?thesis
      using ih \<open>aLo \<le> aHi \<and> bLo \<le> bHi \<and> js_get aLines aHi = js_get bLines bHi\<close> by auto
  next
    case False
    then show ?thesis using "1.prems" by (subst (asm) matchEnd.simps) auto
  qed
qed

subsection \<open>The recursion of addSubMatch and recurseLCS\<close>

text \<open>
  The size of a span, for the termination of the recursion: every span that
  \<open>recurseLCS\<close> hands on is smaller than the span \<open>addSubMatch\<close> was called with,
  because the anchors lie inside the trimmed span and the last anchor is not its first
  pair of lines (the first loop would have matched it).
\<close>

definition spanSize :: "int \<times> int \<times> int \<times> int \<Rightarrow> nat" where
  "spanSize sp = (case sp of (aLo, aHi, bLo, bHi) \<Rightarrow> nat (aHi - aLo + 1) + nat (bHi - bLo + 1))"

definition maxSpan :: "(int \<times> int \<times> int \<times> int) list \<Rightarrow> nat" where
  "maxSpan sps = fold max (map spanSize sps) 0"

lemma fold_max_ge: "fold max ns (m::nat) \<ge> m \<and> (\<forall>n \<in> set ns. n \<le> fold max ns m)"
proof (induction ns arbitrary: m)
  case Nil
  then show ?case by simp
next
  case (Cons n ns)
  from Cons [of "max n m"] show ?case by auto
qed

lemma fold_max_less: "m < k \<Longrightarrow> \<forall>n \<in> set ns. n < k \<Longrightarrow> fold max ns (m::nat) < k"
  by (induction ns arbitrary: m) auto

lemma spanSize_le_maxSpan: "sp \<in> set sps \<Longrightarrow> 2 * spanSize sp < Suc (2 * maxSpan sps)"
  using fold_max_ge [of 0 "map spanSize sps"] by (auto simp: maxSpan_def)

lemma between_spans:
  assumes "(lo, hi, lo', hi') \<in> set (between x)"
  shows "\<exists>n m. n \<in> set x \<and> m \<in> set x \<and> lo = indexA n \<and> hi = indexA m - 1 \<and>
           lo' = indexB n \<and> hi' = indexB m - 1"
  using assms by (induction x rule: between.induct) auto

lemma subSpans_smaller:
  assumes x: "x \<noteq> []"
    and inside: "\<forall>n \<in> set x. aLo \<le> indexA n \<and> indexA n \<le> aHi \<and> bLo \<le> indexB n \<and> indexB n \<le> bHi"
    and start: "\<not> (indexA (last x) = aLo \<and> indexB (last x) = bLo)"
    and sp: "sp \<in> set (subSpans aLo aHi bLo bHi x)"
  shows "spanSize sp < spanSize (aLo, aHi, bLo, bHi)"
proof -
  have h: "hd x \<in> set x" and l: "last x \<in> set x" using x by simp_all
  obtain lo hi lo' hi' where sp4: "sp = (lo, hi, lo', hi')" by (cases sp)
  consider "sp = (aLo, indexA (hd x) - 1, bLo, indexB (hd x) - 1)"
    | "sp \<in> set (between x)"
    | "sp = (indexA (last x), aHi, indexB (last x), bHi)"
    using sp by (auto simp: subSpans_def split: if_splits)
  then show ?thesis
  proof cases
    case 1
    then show ?thesis using inside h by (auto simp: spanSize_def)
  next
    case 2
    then obtain n m where nm: "n \<in> set x" "m \<in> set x" and "lo = indexA n" "hi = indexA m - 1"
        "lo' = indexB n" "hi' = indexB m - 1"
      using between_spans [of lo hi lo' hi' x] by (auto simp: sp4)
    then show ?thesis
      using bspec [OF inside nm(1)] bspec [OF inside nm(2)] by (auto simp: spanSize_def sp4)
  next
    case 3
    then show ?thesis using inside l start by (auto simp: spanSize_def)
  qed
qed

lemma termination_into_recurseLCS:
  assumes ms: "(matched, aLo', bLo') = matchStart aLines bLines aLo aHi bLo bHi"
    and me: "(aHi', bHi') = matchEnd aLines bLines aLo' aHi bLo' bHi"
    and uc: "uniqueCommon aLines aLo' aHi' bLines bLo' bHi' \<noteq> []"
  shows "(let x = longestCommonSubsequence (uniqueCommon aLines aLo' aHi' bLines bLo' bHi')
          in if x = [] then 2 * spanSize (aLo', aHi', bLo', bHi') + 2
             else 2 * maxSpan (subSpans aLo' aHi' bLo' bHi' x) + 2)
         < Suc (2 * spanSize (aLo, aHi, bLo, bHi))"
proof -
  let ?x = "longestCommonSubsequence (uniqueCommon aLines aLo' aHi' bLines bLo' bHi')"
  have x: "?x \<noteq> []"
    using longestCommonSubsequence_ok [OF uniqueCommon_sorted, of aLines aLo' aHi' bLines bLo' bHi'] uc
    by simp
  note s = matchStart_props [OF ms [symmetric]]
  note e = matchEnd_props [OF me [symmetric]]
  have inside: "\<forall>n \<in> set ?x. aLo' \<le> indexA n \<and> indexA n \<le> aHi' \<and> bLo' \<le> indexB n \<and>
      indexB n \<le> bHi' \<and> js_get aLines (indexA n) = js_get bLines (indexB n)"
    using uniqueCommon_anchors by blast
  have l: "last ?x \<in> set ?x" using x by simp
  have start: "\<not> (indexA (last ?x) = aLo' \<and> indexB (last ?x) = bLo')"
    using inside l s e by force
  have small: "spanSize sp < spanSize (aLo', aHi', bLo', bHi')"
    if "sp \<in> set (subSpans aLo' aHi' bLo' bHi' ?x)" for sp
    using subSpans_smaller [OF x _ start that] inside by blast
  have le: "spanSize (aLo', aHi', bLo', bHi') \<le> spanSize (aLo, aHi, bLo, bHi)"
    using s e by (auto simp: spanSize_def)
  have pos: "0 < spanSize (aLo', aHi', bLo', bHi')"
    using inside l by (auto simp: spanSize_def)
  have "maxSpan (subSpans aLo' aHi' bLo' bHi' ?x) < spanSize (aLo', aHi', bLo', bHi')"
    unfolding maxSpan_def using small pos by (intro fold_max_less) auto
  then show ?thesis using x le by (simp add: Let_def)
qed

text \<open>
  \<open>addSubMatch\<close> and \<open>recurseLCS\<close>, each returning its pushes in order. The optional
  argument \<open>ucMap\<close> is \<open>None\<close> when the call leaves it out; a map that is passed is
  used even when it is empty, as \<open>ucMap || ...\<close> does for an object. The results of
  \<open>matchStart\<close> and \<open>matchEnd\<close> are the values of \<open>aLo\<close>, \<open>bLo\<close>, \<open>aHi\<close>, \<open>bHi\<close>
  after the first two loops; \<open>aHiTemp\<close> is the \<open>aHi\<close> of the call.
\<close>

function addSubMatch ::
    "string list \<Rightarrow> string list \<Rightarrow> int \<Rightarrow> int \<Rightarrow> int \<Rightarrow> int \<Rightarrow> DiffEntry list"
  and recurseLCS ::
    "string list \<Rightarrow> string list \<Rightarrow> int \<Rightarrow> int \<Rightarrow> int \<Rightarrow> int \<Rightarrow>
     (string option \<times> int \<times> int) list option \<Rightarrow> DiffEntry list"
where
  "addSubMatch aLines bLines aLo aHi bLo bHi =
     (case matchStart aLines bLines aLo aHi bLo bHi of
        (matched, aLo', bLo') \<Rightarrow>
          (case matchEnd aLines bLines aLo' aHi bLo' bHi of
             (aHi', bHi') \<Rightarrow>
               (let ucMap = uniqueCommon aLines aLo' aHi' bLines bLo' bHi'
                in matched
                   @ (if ucMap = []
                      then map (\<lambda>i. addToResult aLines bLines i (- 1)) [aLo'..aHi']
                           @ map (\<lambda>j. addToResult aLines bLines (- 1) j) [bLo'..bHi']
                      else recurseLCS aLines bLines aLo' aHi' bLo' bHi' (Some ucMap))
                   @ addEnd aLines bLines aHi' bHi' aHi)))"
| "recurseLCS aLines bLines aLo aHi bLo bHi ucMap =
     (let x = longestCommonSubsequence
                (case ucMap of
                   Some m \<Rightarrow> m
                 | None \<Rightarrow> uniqueCommon aLines aLo aHi bLines bLo bHi)
      in if x = [] then addSubMatch aLines bLines aLo aHi bLo bHi
         else concat (map (\<lambda>(lo, hi, lo', hi'). addSubMatch aLines bLines lo hi lo' hi')
                          (subSpans aLo aHi bLo bHi x)))"
  by pat_completeness auto
termination
  apply (relation "measure (\<lambda>args. case args of
      Inl (aLines, bLines, aLo, aHi, bLo, bHi) \<Rightarrow> 2 * spanSize (aLo, aHi, bLo, bHi) + 1
    | Inr (aLines, bLines, aLo, aHi, bLo, bHi, ucMap) \<Rightarrow>
        (let x = longestCommonSubsequence
                (case ucMap of
                   Some m \<Rightarrow> m
                 | None \<Rightarrow> uniqueCommon aLines aLo aHi bLines bLo bHi)
         in if x = [] then 2 * spanSize (aLo, aHi, bLo, bHi) + 2
            else 2 * maxSpan (subSpans aLo aHi bLo bHi x) + 2))")
  apply simp
  apply (auto simp: termination_into_recurseLCS spanSize_le_maxSpan)
  done

declare addSubMatch.simps [simp del] recurseLCS.simps [simp del]

text \<open>The interface \<open>DiffResult\<close> and the exported function.\<close>

record DiffResult =
  lines :: "DiffEntry list"

definition patienceDiff :: "string list \<Rightarrow> string list \<Rightarrow> DiffResult" where
  "patienceDiff aLines bLines =
     \<lparr>lines = recurseLCS aLines bLines 0 (int (length aLines) - 1) 0 (int (length bLines) - 1) None\<rparr>"


subsection \<open>The diff partitions both inputs\<close>

text \<open>
  \<open>covers\<close>: the entries with an A index list the A span in order, the entries with a
  B index list the B span in order, and every entry carries the line of each side it
  has an index on.
\<close>

definition aSide :: "DiffEntry list \<Rightarrow> DiffEntry list" where
  "aSide es = filter (\<lambda>e. 0 \<le> aIndex e) es"

definition bSide :: "DiffEntry list \<Rightarrow> DiffEntry list" where
  "bSide es = filter (\<lambda>e. 0 \<le> bIndex e) es"

definition entries_ok :: "string list \<Rightarrow> string list \<Rightarrow> DiffEntry list \<Rightarrow> bool" where
  "entries_ok aLines bLines es \<longleftrightarrow>
     (\<forall>e \<in> set es. (0 \<le> aIndex e \<longrightarrow> line e = js_get aLines (aIndex e)) \<and>
                    (0 \<le> bIndex e \<longrightarrow> line e = js_get bLines (bIndex e)))"

definition covers ::
    "string list \<Rightarrow> string list \<Rightarrow> int \<Rightarrow> int \<Rightarrow> int \<Rightarrow> int \<Rightarrow> DiffEntry list \<Rightarrow> bool" where
  "covers aLines bLines aLo aHi bLo bHi es \<longleftrightarrow>
     map aIndex (aSide es) = [aLo..aHi] \<and> map bIndex (bSide es) = [bLo..bHi] \<and>
     entries_ok aLines bLines es"

lemma upto_append: "i \<le> j + 1 \<Longrightarrow> j \<le> k \<Longrightarrow> [i..j] @ [j + 1..k] = [i..k]"
proof (cases "i \<le> j")
  case True
  assume "j \<le> k"
  with True show ?thesis using upto_split2 [of i j k] by simp
next
  case False
  assume "i \<le> j + 1"
  with False have "i = j + 1" by simp
  then show ?thesis by simp
qed

lemma covers_append:
  assumes "covers aLines bLines aLo aMid bLo bMid es"
    and "covers aLines bLines (aMid + 1) aHi (bMid + 1) bHi fs"
    and "aLo \<le> aMid + 1" "aMid \<le> aHi" "bLo \<le> bMid + 1" "bMid \<le> bHi"
  shows "covers aLines bLines aLo aHi bLo bHi (es @ fs)"
  using assms by (auto simp: covers_def aSide_def bSide_def entries_ok_def upto_append)

lemma covers_Nil: "aHi < aLo \<Longrightarrow> bHi < bLo \<Longrightarrow> covers aLines bLines aLo aHi bLo bHi []"
  by (simp add: covers_def aSide_def bSide_def entries_ok_def)

lemma covers_matchStart:
  "matchStart aLines bLines aLo aHi bLo bHi = (pushed, aLo', bLo') \<Longrightarrow>
   0 \<le> aLo \<Longrightarrow> 0 \<le> bLo \<Longrightarrow>
   covers aLines bLines aLo (aLo' - 1) bLo (bLo' - 1) pushed \<and>
   (\<forall>e \<in> set pushed. 0 \<le> aIndex e \<and> 0 \<le> bIndex e)"
proof (induction aLines bLines aLo aHi bLo bHi arbitrary: pushed rule: matchStart.induct)
  case (1 aLines bLines aLo aHi bLo bHi)
  show ?case
  proof (cases "aLo \<le> aHi \<and> bLo \<le> bHi \<and> js_get aLines aLo = js_get bLines bLo")
    case True
    obtain p where p: "matchStart aLines bLines (aLo + 1) aHi (bLo + 1) bHi = (p, aLo', bLo')"
      and pushed: "pushed = addToResult aLines bLines aLo bLo # p"
      using "1.prems" True by (subst (asm) matchStart.simps) (auto split: prod.splits)
    note ih = "1.IH" [OF True p] and props = matchStart_props [OF p]
    have one: "covers aLines bLines aLo aLo bLo bLo [addToResult aLines bLines aLo bLo]"
      using True "1.prems" by (simp add: covers_def aSide_def bSide_def entries_ok_def addToResult_def)
    have "covers aLines bLines aLo (aLo' - 1) bLo (bLo' - 1) ([addToResult aLines bLines aLo bLo] @ p)"
      by (rule covers_append [where aMid = aLo and bMid = bLo, OF one])
        (use ih "1.prems" props in auto)
    then show ?thesis using ih "1.prems" by (simp add: pushed addToResult_def)
  next
    case False
    then have "pushed = []" "aLo' = aLo" "bLo' = bLo"
      using "1.prems" by (subst (asm) matchStart.simps; simp)+
    then show ?thesis by (simp add: covers_Nil)
  qed
qed

lemma covers_addEnd:
  "0 \<le> aHi + 1 \<Longrightarrow> 0 \<le> bHi + 1 \<Longrightarrow> aHi \<le> aHiTemp \<Longrightarrow>
   \<forall>k. 0 < k \<and> k \<le> aHiTemp - aHi \<longrightarrow> js_get aLines (aHi + k) = js_get bLines (bHi + k) \<Longrightarrow>
   covers aLines bLines (aHi + 1) aHiTemp (bHi + 1) (bHi + (aHiTemp - aHi))
     (addEnd aLines bLines aHi bHi aHiTemp) \<and>
   (\<forall>e \<in> set (addEnd aLines bLines aHi bHi aHiTemp). 0 \<le> aIndex e \<and> 0 \<le> bIndex e)"
proof (induction aLines bLines aHi bHi aHiTemp rule: addEnd.induct)
  case (1 aLines bLines aHi bHi aHiTemp)
  show ?case
  proof (cases "aHi < aHiTemp")
    case True
    have eq: "js_get aLines (aHi + 1) = js_get bLines (bHi + 1)"
      using "1.prems"(4) True by auto
    have later: "\<forall>k. 0 < k \<and> k \<le> aHiTemp - (aHi + 1) \<longrightarrow>
        js_get aLines (aHi + 1 + k) = js_get bLines (bHi + 1 + k)"
    proof (intro allI impI)
      fix k assume "0 < k \<and> k \<le> aHiTemp - (aHi + 1)"
      then have "0 < k + 1 \<and> k + 1 \<le> aHiTemp - aHi" by auto
      then have "js_get aLines (aHi + (k + 1)) = js_get bLines (bHi + (k + 1))"
        using "1.prems"(4) by blast
      then show "js_get aLines (aHi + 1 + k) = js_get bLines (bHi + 1 + k)"
        by (simp add: algebra_simps)
    qed
    have ih: "covers aLines bLines (aHi + 1 + 1) aHiTemp (bHi + 1 + 1) (bHi + 1 + (aHiTemp - (aHi + 1)))
        (addEnd aLines bLines (aHi + 1) (bHi + 1) aHiTemp) \<and>
      (\<forall>e \<in> set (addEnd aLines bLines (aHi + 1) (bHi + 1) aHiTemp). 0 \<le> aIndex e \<and> 0 \<le> bIndex e)"
      using "1.IH" [OF True _ _ _ later] "1.prems" True by simp
    have one: "covers aLines bLines (aHi + 1) (aHi + 1) (bHi + 1) (bHi + 1)
        [addToResult aLines bLines (aHi + 1) (bHi + 1)]"
      using eq "1.prems" by (simp add: covers_def aSide_def bSide_def entries_ok_def addToResult_def)
    have "covers aLines bLines (aHi + 1) aHiTemp (bHi + 1) (bHi + 1 + (aHiTemp - (aHi + 1)))
        ([addToResult aLines bLines (aHi + 1) (bHi + 1)] @ addEnd aLines bLines (aHi + 1) (bHi + 1) aHiTemp)"
      by (rule covers_append [where aMid = "aHi + 1" and bMid = "bHi + 1", OF one])
        (use ih True in auto)
    moreover have "addEnd aLines bLines aHi bHi aHiTemp =
        addToResult aLines bLines (aHi + 1) (bHi + 1) # addEnd aLines bLines (aHi + 1) (bHi + 1) aHiTemp"
      using True by (subst addEnd.simps) simp
    moreover have "bHi + 1 + (aHiTemp - (aHi + 1)) = bHi + (aHiTemp - aHi)" by simp
    ultimately show ?thesis using ih "1.prems" by (simp add: addToResult_def)
  next
    case False
    then have "addEnd aLines bLines aHi bHi aHiTemp = []" by (subst addEnd.simps) simp
    then show ?thesis using False "1.prems" by (simp add: covers_Nil)
  qed
qed

lemma covers_base:
  "0 \<le> aLo \<Longrightarrow> 0 \<le> bLo \<Longrightarrow>
   covers aLines bLines aLo aHi bLo bHi
     (map (\<lambda>i. addToResult aLines bLines i (- 1)) [aLo..aHi]
      @ map (\<lambda>j. addToResult aLines bLines (- 1) j) [bLo..bHi])"
proof -
  have a: "filter (\<lambda>e. 0 \<le> aIndex e) (map (\<lambda>i. addToResult aLines bLines i (- 1)) [aLo..aHi])
      = map (\<lambda>i. addToResult aLines bLines i (- 1)) [aLo..aHi]" if "0 \<le> aLo"
    using that by (intro filter_True) (auto simp: addToResult_def)
  have b: "filter (\<lambda>e. 0 \<le> bIndex e) (map (\<lambda>j. addToResult aLines bLines (- 1) j) [bLo..bHi])
      = map (\<lambda>j. addToResult aLines bLines (- 1) j) [bLo..bHi]" if "0 \<le> bLo"
    using that by (intro filter_True) (auto simp: addToResult_def)
  have a': "filter (\<lambda>e. 0 \<le> aIndex e) (map (\<lambda>j. addToResult aLines bLines (- 1) j) [bLo..bHi]) = []"
    by (auto simp: filter_empty_conv addToResult_def)
  have b': "filter (\<lambda>e. 0 \<le> bIndex e) (map (\<lambda>i. addToResult aLines bLines i (- 1)) [aLo..aHi]) = []"
    by (auto simp: filter_empty_conv addToResult_def)
  assume "0 \<le> aLo" "0 \<le> bLo"
  then show ?thesis
    by (auto simp: covers_def aSide_def bSide_def a b a' b' comp_def addToResult_def entries_ok_def
        map_idI)
qed


fun chained :: "int \<Rightarrow> int \<Rightarrow> (int \<times> int \<times> int \<times> int) list \<Rightarrow> int \<Rightarrow> int \<Rightarrow> bool" where
  "chained aLo bLo [] aHi bHi \<longleftrightarrow> aLo = aHi + 1 \<and> bLo = bHi + 1"
| "chained aLo bLo ((lo, hi, lo', hi') # sps) aHi bHi \<longleftrightarrow>
     lo = aLo \<and> lo' = bLo \<and> lo \<le> hi + 1 \<and> lo' \<le> hi' + 1 \<and> chained (hi + 1) (hi' + 1) sps aHi bHi"

lemma chained_le: "chained aLo bLo sps aHi bHi \<Longrightarrow> aLo \<le> aHi + 1 \<and> bLo \<le> bHi + 1"
  by (induction aLo bLo sps aHi bHi rule: chained.induct) auto

lemma covers_chained:
  assumes "chained aLo bLo sps aHi bHi" "0 \<le> aLo" "0 \<le> bLo"
    and "\<forall>(lo, hi, lo', hi') \<in> set sps.
           0 \<le> lo \<longrightarrow> 0 \<le> lo' \<longrightarrow> lo \<le> hi + 1 \<longrightarrow> lo' \<le> hi' + 1 \<longrightarrow>
           covers aLines bLines lo hi lo' hi' (f lo hi lo' hi')"
  shows "covers aLines bLines aLo aHi bLo bHi (concat (map (\<lambda>(lo, hi, lo', hi'). f lo hi lo' hi') sps))"
  using assms
proof (induction aLo bLo sps aHi bHi rule: chained.induct)
  case (1 aLo bLo aHi bHi)
  then show ?case by (simp add: covers_Nil)
next
  case (2 aLo bLo lo hi lo' hi' sps aHi bHi)
  have c: "chained (hi + 1) (hi' + 1) sps aHi bHi" and eq: "lo = aLo" "lo' = bLo"
    and wf: "lo \<le> hi + 1" "lo' \<le> hi' + 1"
    using "2.prems"(1) by simp_all
  have first: "covers aLines bLines aLo hi bLo hi' (f lo hi lo' hi')"
    using "2.prems" eq wf by auto
  have rest: "covers aLines bLines (hi + 1) aHi (hi' + 1) bHi
      (concat (map (\<lambda>(lo, hi, lo', hi'). f lo hi lo' hi') sps))"
    using "2.prems" eq wf by (intro "2.IH" [OF c]) auto
  have "covers aLines bLines aLo aHi bLo bHi
      (f lo hi lo' hi' @ concat (map (\<lambda>(lo, hi, lo', hi'). f lo hi lo' hi') sps))"
    by (rule covers_append [where aMid = hi and bMid = hi', OF first rest])
      (use chained_le [OF c] wf eq in auto)
  then show ?case by simp
qed

lemma between_chained:
  "x \<noteq> [] \<Longrightarrow> sorted_wrt below x \<Longrightarrow>
   chained (indexA (hd x)) (indexB (hd x)) (between x @ rest) aHi bHi
     = chained (indexA (last x)) (indexB (last x)) rest aHi bHi"
proof (induction x rule: between.induct)
  case (1 x y xs)
  then show ?case by (auto simp: below_def)
qed simp_all

lemma subSpans_chained:
  assumes x: "x \<noteq> []" and sorted: "sorted_wrt below x"
    and inside: "\<forall>n \<in> set x. aLo \<le> indexA n \<and> indexA n \<le> aHi \<and> bLo \<le> indexB n \<and> indexB n \<le> bHi"
  shows "chained aLo bLo (subSpans aLo aHi bLo bHi x) aHi bHi"
proof -
  have h: "aLo \<le> indexA (hd x) \<and> bLo \<le> indexB (hd x)"
    and l: "indexA (last x) \<le> aHi \<and> indexB (last x) \<le> bHi"
    using inside x by (auto simp: hd_in_set)
  have tail: "chained (indexA (hd x)) (indexB (hd x))
      (between x @ [(indexA (last x), aHi, indexB (last x), bHi)]) aHi bHi"
    using l by (simp add: between_chained [OF x sorted])
  show ?thesis
  proof (cases "aLo < indexA (hd x) \<or> bLo < indexB (hd x)")
    case True
    then show ?thesis using h l tail by (simp add: subSpans_def)
  next
    case False
    then have "aLo = indexA (hd x)" "bLo = indexB (hd x)" using h by auto
    then show ?thesis using False l tail by (simp add: subSpans_def)
  qed
qed

lemma anchors_of_span:
  assumes "ucMap = None \<or> ucMap = Some (uniqueCommon aLines aLo aHi bLines bLo bHi)"
  defines "x \<equiv> longestCommonSubsequence
                 (case ucMap of Some m \<Rightarrow> m | None \<Rightarrow> uniqueCommon aLines aLo aHi bLines bLo bHi)"
  shows "sorted_wrt below x \<and>
         (\<forall>n \<in> set x. aLo \<le> indexA n \<and> indexA n \<le> aHi \<and> bLo \<le> indexB n \<and> indexB n \<le> bHi \<and>
                       js_get aLines (indexA n) = js_get bLines (indexB n))"
proof -
  have x: "x = longestCommonSubsequence (uniqueCommon aLines aLo aHi bLines bLo bHi)"
    using assms(1) by (auto simp: x_def)
  show ?thesis
    unfolding x
    using longestCommonSubsequence_ok [OF uniqueCommon_sorted, of aLines aLo aHi bLines bLo bHi]
      uniqueCommon_anchors [of _ aLines aLo aHi bLines bLo bHi]
    by blast
qed

lemma covers_addSubMatch_recurseLCS:
  "0 \<le> aLo \<longrightarrow> 0 \<le> bLo \<longrightarrow> aLo \<le> aHi + 1 \<longrightarrow> bLo \<le> bHi + 1 \<longrightarrow>
     covers aLines bLines aLo aHi bLo bHi (addSubMatch aLines bLines aLo aHi bLo bHi)"
  "0 \<le> aLo \<longrightarrow> 0 \<le> bLo \<longrightarrow> aLo \<le> aHi + 1 \<longrightarrow> bLo \<le> bHi + 1 \<longrightarrow>
     (ucMap = None \<or> ucMap = Some (uniqueCommon aLines aLo aHi bLines bLo bHi)) \<longrightarrow>
     covers aLines bLines aLo aHi bLo bHi (recurseLCS aLines bLines aLo aHi bLo bHi ucMap)"
proof (induction aLines bLines aLo aHi bLo bHi and aLines bLines aLo aHi bLo bHi ucMap
    rule: addSubMatch_recurseLCS.induct)
  case (1 aLines bLines aLo aHi bLo bHi)
  show ?case
  proof (intro impI)
    assume pre: "0 \<le> aLo" "0 \<le> bLo" "aLo \<le> aHi + 1" "bLo \<le> bHi + 1"
    obtain matched aLo' bLo' where ms: "matchStart aLines bLines aLo aHi bLo bHi = (matched, aLo', bLo')"
      by (cases "matchStart aLines bLines aLo aHi bLo bHi") auto
    obtain aHi' bHi' where me: "matchEnd aLines bLines aLo' aHi bLo' bHi = (aHi', bHi')"
      by (cases "matchEnd aLines bLines aLo' aHi bLo' bHi") auto
    define ucMap where "ucMap = uniqueCommon aLines aLo' aHi' bLines bLo' bHi'"
    define mid where "mid = (if ucMap = []
                      then map (\<lambda>i. addToResult aLines bLines i (- 1)) [aLo'..aHi']
                           @ map (\<lambda>j. addToResult aLines bLines (- 1) j) [bLo'..bHi']
                      else recurseLCS aLines bLines aLo' aHi' bLo' bHi' (Some ucMap))"
    have unfold: "addSubMatch aLines bLines aLo aHi bLo bHi =
        matched @ mid @ addEnd aLines bLines aHi' bHi' aHi"
      by (subst addSubMatch.simps) (simp add: ms me Let_def mid_def ucMap_def)
    note s = matchStart_props [OF ms] and e = matchEnd_props [OF me]
    have lo: "0 \<le> aLo'" "0 \<le> bLo'" "aLo' \<le> aHi + 1" "bLo' \<le> bHi + 1"
      using s pre by auto
    have hi: "aLo' \<le> aHi' + 1" "bLo' \<le> bHi' + 1" "aHi' \<le> aHi" "bHi' \<le> bHi"
      using e lo by auto
    have c1: "covers aLines bLines aLo (aLo' - 1) bLo (bLo' - 1) matched"
      using covers_matchStart [OF ms] pre by simp
    have c2: "covers aLines bLines aLo' aHi' bLo' bHi' mid"
    proof (cases "ucMap = []")
      case True
      then show ?thesis using lo by (simp add: mid_def covers_base)
    next
      case False
      have "covers aLines bLines aLo' aHi' bLo' bHi'
          (recurseLCS aLines bLines aLo' aHi' bLo' bHi' (Some ucMap))"
        using "1.IH" [OF ms [symmetric] refl me [symmetric] ucMap_def False] lo hi
        by (simp add: ucMap_def)
      then show ?thesis using False by (simp add: mid_def)
    qed
    have c3: "covers aLines bLines (aHi' + 1) aHi (bHi' + 1) bHi (addEnd aLines bLines aHi' bHi' aHi)"
    proof -
      have "bHi' + (aHi - aHi') = bHi" using e by simp
      then show ?thesis
        using covers_addEnd [of aHi' bHi' aHi aLines bLines] e lo hi by auto
    qed
    have c23: "covers aLines bLines aLo' aHi bLo' bHi (mid @ addEnd aLines bLines aHi' bHi' aHi)"
      by (rule covers_append [where aMid = aHi' and bMid = bHi', OF c2 c3]) (use hi in auto)
    have "covers aLines bLines aLo aHi bLo bHi (matched @ mid @ addEnd aLines bLines aHi' bHi' aHi)"
    proof (rule covers_append [where aMid = "aLo' - 1" and bMid = "bLo' - 1", OF c1])
      show "covers aLines bLines (aLo' - 1 + 1) aHi (bLo' - 1 + 1) bHi
          (mid @ addEnd aLines bLines aHi' bHi' aHi)"
        using c23 by simp
    qed (use s lo in auto)
    then show "covers aLines bLines aLo aHi bLo bHi (addSubMatch aLines bLines aLo aHi bLo bHi)"
      by (simp add: unfold)
  qed
next
  case (2 aLines bLines aLo aHi bLo bHi ucMap)
  show ?case
  proof (intro impI)
    assume pre: "0 \<le> aLo" "0 \<le> bLo" "aLo \<le> aHi + 1" "bLo \<le> bHi + 1"
      and uc: "ucMap = None \<or> ucMap = Some (uniqueCommon aLines aLo aHi bLines bLo bHi)"
    define x where "x = longestCommonSubsequence
        (case ucMap of Some m \<Rightarrow> m | None \<Rightarrow> uniqueCommon aLines aLo aHi bLines bLo bHi)"
    note a = anchors_of_span [OF uc, folded x_def]
    show "covers aLines bLines aLo aHi bLo bHi (recurseLCS aLines bLines aLo aHi bLo bHi ucMap)"
    proof (cases "x = []")
      case True
      have "recurseLCS aLines bLines aLo aHi bLo bHi ucMap = addSubMatch aLines bLines aLo aHi bLo bHi"
        using True by (subst recurseLCS.simps) (simp add: Let_def x_def)
      then show ?thesis using "2.IH"(1) [OF x_def True] pre by simp
    next
      case False
      have r: "recurseLCS aLines bLines aLo aHi bLo bHi ucMap =
          concat (map (\<lambda>(lo, hi, lo', hi'). addSubMatch aLines bLines lo hi lo' hi')
                      (subSpans aLo aHi bLo bHi x))"
        using False by (subst recurseLCS.simps) (simp add: Let_def x_def)
      have c: "chained aLo bLo (subSpans aLo aHi bLo bHi x) aHi bHi"
        using a by (intro subSpans_chained [OF False]) auto
      have ih: "\<forall>(lo, hi, lo', hi') \<in> set (subSpans aLo aHi bLo bHi x).
           0 \<le> lo \<longrightarrow> 0 \<le> lo' \<longrightarrow> lo \<le> hi + 1 \<longrightarrow> lo' \<le> hi' + 1 \<longrightarrow>
           covers aLines bLines lo hi lo' hi' (addSubMatch aLines bLines lo hi lo' hi')"
        using "2.IH"(2) [OF x_def False _ refl refl refl] by auto
      show ?thesis
        unfolding r using covers_chained [OF c pre(1,2) ih] .
    qed
  qed
qed

lemma upto_map_int: "[0..int n - 1] = map int [0..<n]"
proof (induction n)
  case 0
  then show ?case by simp
next
  case (Suc n)
  have "[0..int (Suc n) - 1] = [0..int n - 1] @ [int n]"
    using upto_rec2 [of 0 "int n"] by simp
  then show ?case using Suc by simp
qed

lemma js_get_int: "map (js_get xs) (map int [0..<length xs]) = map Some xs"
  by (rule nth_equalityI) (simp_all add: js_get_def)

lemma covers_patienceDiff:
  "covers aLines bLines 0 (int (length aLines) - 1) 0 (int (length bLines) - 1)
     (lines (patienceDiff aLines bLines))"
  using covers_addSubMatch_recurseLCS(2)
    [of 0 0 "int (length aLines) - 1" "int (length bLines) - 1" None aLines bLines]
  by (simp add: patienceDiff_def)

lemma covers_lines:
  assumes "covers aLines bLines 0 (int (length aLines) - 1) 0 (int (length bLines) - 1) es"
  shows "map aIndex (aSide es) = map int [0..<length aLines]"
    and "map line (sort_key aIndex (aSide es)) = map Some aLines"
    and "map bIndex (bSide es) = map int [0..<length bLines]"
    and "map line (sort_key bIndex (bSide es)) = map Some bLines"
proof -
  show a: "map aIndex (aSide es) = map int [0..<length aLines]"
    and b: "map bIndex (bSide es) = map int [0..<length bLines]"
    using assms by (simp_all add: covers_def upto_map_int)
  have "sorted (map aIndex (aSide es))" using assms by (simp add: covers_def)
  then have sa: "sort_key aIndex (aSide es) = aSide es" by (rule sort_key_id_if_sorted)
  have "sorted (map bIndex (bSide es))" using assms by (simp add: covers_def)
  then have sb: "sort_key bIndex (bSide es) = bSide es" by (rule sort_key_id_if_sorted)
  have ok: "entries_ok aLines bLines es" using assms by (simp add: covers_def)
  have "map line (aSide es) = map (js_get aLines) (map aIndex (aSide es))"
    using ok by (auto simp: entries_ok_def aSide_def)
  then show "map line (sort_key aIndex (aSide es)) = map Some aLines"
    by (simp only: sa a js_get_int)
  have "map line (bSide es) = map (js_get bLines) (map bIndex (bSide es))"
    using ok by (auto simp: entries_ok_def bSide_def)
  then show "map line (sort_key bIndex (bSide es)) = map Some bLines"
    by (simp only: sb b js_get_int)
qed

text \<open>
  Claim C1. For all line sequences A and B, the entries of \<open>patienceDiff A B\<close> with
  \<open>aIndex >= 0\<close> carry, in the order of the result, the indices 0, 1, ... of A, each
  once, and taken in \<open>aIndex\<close> order their lines are the lines of A; the entries with
  \<open>bIndex >= 0\<close> carry the indices of B, each once, and taken in \<open>bIndex\<close> order their
  lines are the lines of B.
\<close>

theorem patienceDiff_partitions_inputs:
  "map aIndex (filter (\<lambda>e. 0 \<le> aIndex e) (lines (patienceDiff aLines bLines)))
     = map int [0..<length aLines] \<and>
   map line (sort_key aIndex (filter (\<lambda>e. 0 \<le> aIndex e) (lines (patienceDiff aLines bLines))))
     = map Some aLines \<and>
   map bIndex (filter (\<lambda>e. 0 \<le> bIndex e) (lines (patienceDiff aLines bLines)))
     = map int [0..<length bLines] \<and>
   map line (sort_key bIndex (filter (\<lambda>e. 0 \<le> bIndex e) (lines (patienceDiff aLines bLines))))
     = map Some bLines"
  using covers_lines [OF covers_patienceDiff, of aLines bLines]
  by (simp add: aSide_def bSide_def)

subsection \<open>A sequence against itself\<close>

lemma uniqueCommon_same:
  assumes "(key, i, j) \<in> set (uniqueCommon arr lo hi arr lo hi)"
  shows "i = j"
  using uniqueCommon_sound [OF assms] eq_key_imp_eq_value [OF findUnique_distinct]
  by blast

lemma uniqueCommon_empty_span: "hi < lo \<Longrightarrow> uniqueCommon aArr lo hi bArr lo' hi' = []"
  by (simp add: uniqueCommon_def findUnique_def)

lemma between_same:
  "\<forall>n \<in> set x. indexA n = indexB n \<Longrightarrow> (lo, hi, lo', hi') \<in> set (between x) \<Longrightarrow>
   lo = lo' \<and> hi = hi' \<and> (\<exists>n \<in> set x. lo = indexA n)"
  by (induction x rule: between.induct) auto

lemma all_match_same:
  "0 \<le> lo \<longrightarrow> (\<forall>e \<in> set (addSubMatch aLines bLines lo hi lo' hi').
      aLines = bLines \<and> lo = lo' \<and> hi = hi' \<longrightarrow> 0 \<le> aIndex e \<and> 0 \<le> bIndex e)"
  "0 \<le> lo \<longrightarrow> (ucMap = None \<or> ucMap = Some (uniqueCommon aLines lo hi bLines lo' hi')) \<longrightarrow>
     (\<forall>e \<in> set (recurseLCS aLines bLines lo hi lo' hi' ucMap).
        aLines = bLines \<and> lo = lo' \<and> hi = hi' \<longrightarrow> 0 \<le> aIndex e \<and> 0 \<le> bIndex e)"
proof (induction aLines bLines lo hi lo' hi' and aLines bLines lo hi lo' hi' ucMap
    rule: addSubMatch_recurseLCS.induct)
  case (1 aLines bLines aLo aHi bLo bHi)
  show ?case
  proof (intro impI ballI)
    fix e
    assume pre: "0 \<le> aLo" and e: "e \<in> set (addSubMatch aLines bLines aLo aHi bLo bHi)"
      and same: "aLines = bLines \<and> aLo = bLo \<and> aHi = bHi"
    obtain matched aLo' bLo' where ms: "matchStart aLines bLines aLo aHi bLo bHi = (matched, aLo', bLo')"
      by (cases "matchStart aLines bLines aLo aHi bLo bHi") auto
    note s = matchStart_props [OF ms]
    have lo': "bLo' = aLo'" "aHi < aLo'" using s same by auto
    have me: "matchEnd aLines bLines aLo' aHi bLo' bHi = (aHi, bHi)"
      using lo' by (subst matchEnd.simps) simp
    have ae: "addEnd aLines bLines aHi bHi aHi = []" by (subst addEnd.simps) simp
    have uc: "uniqueCommon aLines aLo' aHi bLines bLo' bHi = []"
      using lo' by (simp add: uniqueCommon_empty_span)
    have empty: "[aLo'..aHi] = []" "[bLo'..bHi] = []" using lo' same by simp_all
    have "addSubMatch aLines bLines aLo aHi bLo bHi = matched"
      by (subst addSubMatch.simps) (simp add: ms me Let_def uc ae empty)
    then show "0 \<le> aIndex e \<and> 0 \<le> bIndex e"
      using covers_matchStart [OF ms] pre same e by auto
  qed
next
  case (2 aLines bLines aLo aHi bLo bHi ucMap)
  show ?case
  proof (intro impI ballI)
    fix e
    assume pre: "0 \<le> aLo"
      and uc: "ucMap = None \<or> ucMap = Some (uniqueCommon aLines aLo aHi bLines bLo bHi)"
      and e: "e \<in> set (recurseLCS aLines bLines aLo aHi bLo bHi ucMap)"
      and same: "aLines = bLines \<and> aLo = bLo \<and> aHi = bHi"
    define x where "x = longestCommonSubsequence
        (case ucMap of Some m \<Rightarrow> m | None \<Rightarrow> uniqueCommon aLines aLo aHi bLines bLo bHi)"
    have xu: "x = longestCommonSubsequence (uniqueCommon aLines aLo aHi bLines bLo bHi)"
      using uc by (auto simp: x_def)
    note a = anchors_of_span [OF uc, folded x_def]
    have diag: "\<forall>n \<in> set x. indexA n = indexB n"
    proof
      fix n assume "n \<in> set x"
      then have "(indexA n, indexB n) \<in> snd ` set (uniqueCommon aLines aLo aHi bLines bLo bHi)"
        using longestCommonSubsequence_ok [OF uniqueCommon_sorted, of aLines aLo aHi bLines bLo bHi]
        by (simp add: xu)
      then obtain key where "(key, indexA n, indexB n) \<in> set (uniqueCommon aLines aLo aHi bLines bLo bHi)"
        by force
      then show "indexA n = indexB n" using same uniqueCommon_same by blast
    qed
    show "0 \<le> aIndex e \<and> 0 \<le> bIndex e"
    proof (cases "x = []")
      case True
      have "recurseLCS aLines bLines aLo aHi bLo bHi ucMap = addSubMatch aLines bLines aLo aHi bLo bHi"
        using True by (subst recurseLCS.simps) (simp add: Let_def x_def)
      then show ?thesis using "2.IH"(1) [OF x_def True] pre e same by auto
    next
      case False
      have r: "recurseLCS aLines bLines aLo aHi bLo bHi ucMap =
          concat (map (\<lambda>(lo, hi, lo', hi'). addSubMatch aLines bLines lo hi lo' hi')
                      (subSpans aLo aHi bLo bHi x))"
        using False by (subst recurseLCS.simps) (simp add: Let_def x_def)
      then obtain sp lo hi lo' hi' where sp: "sp \<in> set (subSpans aLo aHi bLo bHi x)"
        and sp4: "sp = (lo, hi, lo', hi')" and esp: "e \<in> set (addSubMatch aLines bLines lo hi lo' hi')"
        using e by auto
      have h: "hd x \<in> set x" and l: "last x \<in> set x" using False by simp_all
      have "lo = lo' \<and> hi = hi' \<and> 0 \<le> lo"
      proof -
        consider "sp = (aLo, indexA (hd x) - 1, bLo, indexB (hd x) - 1)"
          | "sp \<in> set (between x)"
          | "sp = (indexA (last x), aHi, indexB (last x), bHi)"
          using sp by (auto simp: subSpans_def split: if_splits)
        then show ?thesis
        proof cases
          case 1
          then show ?thesis using diag h same pre by (auto simp: sp4)
        next
          case 2
          from between_same [OF diag this [unfolded sp4]] a pre show ?thesis by force
        next
          case 3
          then show ?thesis using diag l same pre a by (force simp: sp4)
        qed
      qed
      then show ?thesis
        using "2.IH"(2) [OF x_def False sp sp4 [symmetric] refl refl] esp same by auto
    qed
  qed
qed

subsection \<open>Edit blocks (lineDiff)\<close>

text \<open>
  \<open>lineDiff\<close> of the diff view turns the entries into the changes (edit blocks) of the
  merge view. \<open>splitLines\<close> is \<open>split("\n")\<close>. \<open>changesFrom\<close> is the outer loop from
  an entry on and \<open>changeRun\<close> the inner loop that gathers one run of entries that are
  not matches; the length of an undefined line raises a TypeError.
\<close>

fun splitLines :: "string \<Rightarrow> string list" where
  "splitLines [] = [[]]"
| "splitLines (c # cs) =
     (if c = CHR 0x0A then [] # splitLines cs
      else (case splitLines cs of [] \<Rightarrow> [[c]] | l # ls \<Rightarrow> (c # l) # ls))"

function changesFrom :: "int \<Rightarrow> int \<Rightarrow> int \<Rightarrow> int \<Rightarrow> DiffEntry list \<Rightarrow> error + chunk list"
  and changeRun ::
    "int \<Rightarrow> int \<Rightarrow> int \<Rightarrow> int \<Rightarrow> int \<Rightarrow> int \<Rightarrow> DiffEntry list \<Rightarrow> error + chunk list"
where
  "changesFrom aN bN curA curB [] = Inr []"
| "changesFrom aN bN curA curB (entry # rest) =
     (if aIndex entry \<ge> 0 \<and> bIndex entry \<ge> 0
      then (case line entry of
              None \<Rightarrow> Inl TypeError
            | Some l \<Rightarrow>
                changesFrom aN bN
                  (curA + int (length l) + (if aIndex entry < aN - 1 then 1 else 0))
                  (curB + int (length l) + (if bIndex entry < bN - 1 then 1 else 0)) rest)
      else changeRun aN bN curA curB curA curB (entry # rest))"
| "changeRun aN bN startA startB curA curB [] =
     Inr [\<lparr>fromA = startA, toA = curA, fromB = startB, toB = curB\<rparr>]"
| "changeRun aN bN startA startB curA curB (e # rest) =
     (if aIndex e \<ge> 0 \<and> bIndex e \<ge> 0
      then (case changesFrom aN bN curA curB (e # rest) of
              Inl err \<Rightarrow> Inl err
            | Inr changes \<Rightarrow>
                Inr (\<lparr>fromA = startA, toA = curA, fromB = startB, toB = curB\<rparr> # changes))
      else (case line e of
              None \<Rightarrow> Inl TypeError
            | Some l \<Rightarrow>
                if bIndex e = - 1
                then changeRun aN bN startA startB
                       (curA + int (length l) + (if aIndex e < aN - 1 then 1 else 0)) curB rest
                else changeRun aN bN startA startB curA
                       (curB + int (length l) + (if bIndex e < bN - 1 then 1 else 0)) rest))"
  by pat_completeness auto
termination
  by (relation "measure (\<lambda>args. case args of
      Inl (aN, bN, curA, curB, es) \<Rightarrow>
        3 * length es + (case es of [] \<Rightarrow> 0 | e # rest \<Rightarrow> if aIndex e \<ge> 0 \<and> bIndex e \<ge> 0 then 0 else 2)
    | Inr (aN, bN, startA, startB, curA, curB, es) \<Rightarrow> 3 * length es + 1)")
    (auto split: list.splits)

definition lineDiff :: "string \<Rightarrow> string \<Rightarrow> error + chunk list" where
  "lineDiff a b =
     (let aLines = splitLines a;
          bLines = splitLines b;
          diff = patienceDiff aLines bLines
      in changesFrom (int (length aLines)) (int (length bLines)) 0 0 (lines diff))"

lemma changesFrom_all_matched:
  "\<forall>e \<in> set es. 0 \<le> aIndex e \<and> 0 \<le> bIndex e \<and> line e \<noteq> None \<Longrightarrow>
   changesFrom aN bN curA curB es = Inr []"
  by (induction es arbitrary: curA curB) auto

lemma lines_defined:
  assumes "e \<in> set (lines (patienceDiff aLines bLines))" "0 \<le> aIndex e"
  shows "line e \<noteq> None"
proof -
  note c = covers_patienceDiff [of aLines bLines]
  have "e \<in> set (aSide (lines (patienceDiff aLines bLines)))" using assms by (simp add: aSide_def)
  then have "aIndex e \<in> set (map aIndex (aSide (lines (patienceDiff aLines bLines))))"
    by (simp only: set_map) (rule imageI)
  then have "aIndex e \<in> set [0..int (length aLines) - 1]"
    using c by (simp only: covers_def)
  then have "0 \<le> aIndex e \<and> aIndex e < int (length aLines)"
    by simp
  moreover have "line e = js_get aLines (aIndex e)"
    using c assms by (auto simp: covers_def entries_ok_def)
  ultimately show ?thesis by (simp add: js_get_def)
qed

text \<open>
  Claim C6. For every line sequence A, every entry of \<open>patienceDiff A A\<close> has
  \<open>aIndex >= 0\<close> and \<open>bIndex >= 0\<close>: there is no entry of one side only, and
  \<open>lineDiff\<close> of a text against itself yields no change.
\<close>

theorem patienceDiff_identity:
  "list_all (\<lambda>e. 0 \<le> aIndex e \<and> 0 \<le> bIndex e) (lines (patienceDiff aLines aLines)) \<and>
   lineDiff a a = Inr []"
proof -
  have m: "0 \<le> aIndex e \<and> 0 \<le> bIndex e" if "e \<in> set (lines (patienceDiff xs xs))" for e xs
    using all_match_same(2) [of 0 None xs "int (length xs) - 1" xs 0 "int (length xs) - 1"] that
    by (simp add: patienceDiff_def)
  have "changesFrom aN bN 0 0 (lines (patienceDiff xs xs)) = Inr []" for aN bN xs
    by (rule changesFrom_all_matched) (use m lines_defined in blast)
  then show ?thesis using m by (simp add: list_all_iff lineDiff_def Let_def)
qed

theorem patienceDiff_identity_witness:
  "lines (patienceDiff [''a'', ''b'', ''a''] [''a'', ''b'', ''a'']) =
     [\<lparr>line = Some ''a'', aIndex = 0, bIndex = 0\<rparr>,
      \<lparr>line = Some ''b'', aIndex = 1, bIndex = 1\<rparr>,
      \<lparr>line = Some ''a'', aIndex = 2, bIndex = 2\<rparr>] \<and>
   list_all (\<lambda>e. 0 \<le> aIndex e \<and> 0 \<le> bIndex e)
     (lines (patienceDiff [''a'', ''b'', ''a''] [''a'', ''b'', ''a''])) \<and>
   lineDiff [CHR ''a'', CHR 0x0A, CHR ''b'', CHR 0x0A, CHR ''a'']
            [CHR ''a'', CHR 0x0A, CHR ''b'', CHR 0x0A, CHR ''a''] = Inr []"
proof -
  have "lines (patienceDiff [''a'', ''b'', ''a''] [''a'', ''b'', ''a'']) =
     [\<lparr>line = Some ''a'', aIndex = 0, bIndex = 0\<rparr>,
      \<lparr>line = Some ''b'', aIndex = 1, bIndex = 1\<rparr>,
      \<lparr>line = Some ''a'', aIndex = 2, bIndex = 2\<rparr>]"
    by code_simp
  then show ?thesis
    using patienceDiff_identity
      [of "[''a'', ''b'', ''a'']" "[CHR ''a'', CHR 0x0A, CHR ''b'', CHR 0x0A, CHR ''a'']"]
    by simp
qed

text \<open>
  The changes of \<open>lineDiff\<close> end at the start of the line that follows the block (at
  the end of the text for a block on the last line). Two texts of twelve lines that
  differ in the first and the last line: the changes are (0, 2) and (22, 23), and with
  them as chunks, margin 2 and minimum size 4, five of the ten unchanged lines are
  folded (lines 5 to 9).
\<close>

lemma lineDiff_changes_as_chunks:
  "lineDiff (''a'' @ concat (map (\<lambda>c. [CHR 0x0A, c]) ''0123456789'') @ (CHR 0x0A # ''b''))
            (''c'' @ concat (map (\<lambda>c. [CHR 0x0A, c]) ''0123456789'') @ (CHR 0x0A # ''d''))
     = Inr [\<lparr>fromA = 0, toA = 2, fromB = 0, toB = 2\<rparr>,
            \<lparr>fromA = 22, toA = 23, fromB = 22, toB = 23\<rparr>] \<and>
   computeUnchangedRanges
     (splitLines (''a'' @ concat (map (\<lambda>c. [CHR 0x0A, c]) ''0123456789'') @ (CHR 0x0A # ''b'')))
     [\<lparr>fromA = 0, toA = 2, fromB = 0, toB = 2\<rparr>, \<lparr>fromA = 22, toA = 23, fromB = 22, toB = 23\<rparr>]
     SideA 2 4
     = Inr [\<lparr>range_from = 8, range_to = 17, range_lines = 5\<rparr>]"
  by code_simp

subsection \<open>Anchors\<close>

text \<open>
  Claim C4. For A = [x, y, x] and B = [x, y]: the unique common lines of the whole spans
  are y alone, so the subsequence of anchors is the pair (1, 1); the spans handed on are
  (0..0, 0..0) and (1..2, 1..1), and what remains of them after the matching of equal
  ends has no unique common line. The result matches x at 0, matches y at 1 and deletes
  the x at 2. In general a line that does not occur exactly once in the A span, or not
  exactly once in the B span, is no key of \<open>uniqueCommon\<close>.
\<close>

theorem anchor_uniqueness:
  "lines (patienceDiff [''x'', ''y'', ''x''] [''x'', ''y'']) =
     [\<lparr>line = Some ''x'', aIndex = 0, bIndex = 0\<rparr>,
      \<lparr>line = Some ''y'', aIndex = 1, bIndex = 1\<rparr>,
      \<lparr>line = Some ''x'', aIndex = 2, bIndex = - 1\<rparr>] \<and>
   uniqueCommon [''x'', ''y'', ''x''] 0 2 [''x'', ''y''] 0 1 = [(Some ''y'', 1, 1)] \<and>
   longestCommonSubsequence (uniqueCommon [''x'', ''y'', ''x''] 0 2 [''x'', ''y''] 0 1)
     = [Node 1 1 None] \<and>
   subSpans 0 2 0 1 [Node 1 1 None] = [(0, 0, 0, 0), (1, 2, 1, 1)] \<and>
   uniqueCommon [''x'', ''y'', ''x''] 1 0 [''x'', ''y''] 1 0 = [] \<and>
   uniqueCommon [''x'', ''y'', ''x''] 2 2 [''x'', ''y''] 2 1 = [] \<and>
   (count_list (map (js_get aArr) [aLo..aHi]) key \<noteq> 1 \<or>
    count_list (map (js_get bArr) [bLo..bHi]) key \<noteq> 1 \<longrightarrow>
      key \<notin> fst ` set (uniqueCommon aArr aLo aHi bArr bLo bHi))"
proof -
  have concrete:
    "lines (patienceDiff [''x'', ''y'', ''x''] [''x'', ''y'']) =
       [\<lparr>line = Some ''x'', aIndex = 0, bIndex = 0\<rparr>,
        \<lparr>line = Some ''y'', aIndex = 1, bIndex = 1\<rparr>,
        \<lparr>line = Some ''x'', aIndex = 2, bIndex = - 1\<rparr>] \<and>
     uniqueCommon [''x'', ''y'', ''x''] 0 2 [''x'', ''y''] 0 1 = [(Some ''y'', 1, 1)] \<and>
     longestCommonSubsequence (uniqueCommon [''x'', ''y'', ''x''] 0 2 [''x'', ''y''] 0 1)
       = [Node 1 1 None] \<and>
     subSpans 0 2 0 1 [Node 1 1 None] = [(0, 0, 0, 0), (1, 2, 1, 1)] \<and>
     uniqueCommon [''x'', ''y'', ''x''] 1 0 [''x'', ''y''] 1 0 = [] \<and>
     uniqueCommon [''x'', ''y'', ''x''] 2 2 [''x'', ''y''] 2 1 = []"
    by code_simp
  have general: "count_list (map (js_get aArr) [aLo..aHi]) key = 1 \<and>
      count_list (map (js_get bArr) [bLo..bHi]) key = 1"
    if "key \<in> fst ` set (uniqueCommon aArr aLo aHi bArr bLo bHi)"
  proof -
    from that obtain i j where "(key, i, j) \<in> set (uniqueCommon aArr aLo aHi bArr bLo bHi)"
      by force
    from uniqueCommon_sound [OF this] show ?thesis by (auto dest: findUnique_sound)
  qed
  show ?thesis using concrete general by blast
qed

text \<open>The theorem at the line x, which stands twice in A and once in B.\<close>

theorem anchor_uniqueness_witness:
  "count_list (map (js_get [''x'', ''y'', ''x'']) [0..2]) (Some ''x'') = 2 \<and>
   count_list (map (js_get [''x'', ''y'']) [0..1]) (Some ''x'') = 1 \<and>
   Some ''x'' \<notin> fst ` set (uniqueCommon [''x'', ''y'', ''x''] 0 2 [''x'', ''y''] 0 1)"
proof -
  have c: "count_list (map (js_get [''x'', ''y'', ''x'']) [0..2]) (Some ''x'') = 2"
    "count_list (map (js_get [''x'', ''y'']) [0..1]) (Some ''x'') = 1"
    by code_simp+
  then show ?thesis
    using anchor_uniqueness [of "[''x'', ''y'', ''x'']" 0 2 "Some ''x''" "[''x'', ''y'']" 0 1]
    by simp
qed

theorem patienceDiff_partitions_inputs_witness:
  "map line (sort_key aIndex (filter (\<lambda>e. 0 \<le> aIndex e)
      (lines (patienceDiff [''a'', ''b'', ''c''] [''c'', ''a'', ''b'']))))
     = [Some ''a'', Some ''b'', Some ''c''] \<and>
   map line (sort_key bIndex (filter (\<lambda>e. 0 \<le> bIndex e)
      (lines (patienceDiff [''a'', ''b'', ''c''] [''c'', ''a'', ''b'']))))
     = [Some ''c'', Some ''a'', Some ''b''] \<and>
   lines (patienceDiff [''a'', ''b'', ''c''] [''c'', ''a'', ''b'']) =
     [\<lparr>line = Some ''c'', aIndex = - 1, bIndex = 0\<rparr>,
      \<lparr>line = Some ''a'', aIndex = 0, bIndex = 1\<rparr>,
      \<lparr>line = Some ''b'', aIndex = 1, bIndex = 2\<rparr>,
      \<lparr>line = Some ''c'', aIndex = 2, bIndex = - 1\<rparr>]"
proof -
  have "lines (patienceDiff [''a'', ''b'', ''c''] [''c'', ''a'', ''b'']) =
     [\<lparr>line = Some ''c'', aIndex = - 1, bIndex = 0\<rparr>,
      \<lparr>line = Some ''a'', aIndex = 0, bIndex = 1\<rparr>,
      \<lparr>line = Some ''b'', aIndex = 1, bIndex = 2\<rparr>,
      \<lparr>line = Some ''c'', aIndex = 2, bIndex = - 1\<rparr>]"
    by code_simp
  then show ?thesis
    using patienceDiff_partitions_inputs [of "[''a'', ''b'', ''c'']" "[''c'', ''a'', ''b'']"]
    by simp
qed

end
